theory Spec2Isabelle
  imports Main "HOL-Library.Word" "HOL-Library.Multiset" "HOL-Library.Log_Nat"
begin

unbundle bit_operations_syntax

section \<open>Broker rows and batches (series/metric/row_broker.go)\<close>

text \<open>
  Go's \<open>int64\<close> and \<open>uint64\<close> are \<open>64 word\<close>; a signed comparison \<open>a < b\<close> of two
  \<open>int64\<close> values is \<open>sint a < sint b\<close>, and \<open>+\<close>, \<open>-\<close> wrap around as in Go.
  Slice indices and lengths (Go \<open>int\<close>, never negative here) are \<open>nat\<close>.
\<close>

type_synonym int64 = "64 word"

type_synonym uint64 = "64 word"

type_synonym byte = "8 word"

datatype error = Err string | Panic string

text \<open>
  Modelled from the spec: \<open>flatMetricsV1.Metric\<close> (generated code, not under src/) is
  used by the core only through its accessors \<open>Timestamp()\<close> (epoch milliseconds) and
  \<open>Hash()\<close> (64-bit hash of name and tags); a metric is the pair of their values.
\<close>

record Metric =
  Timestamp :: int64
  Hash :: uint64

text \<open>\<open>models.ShardID\<close> is a Go integer type; shard ids are \<open>int\<close>.\<close>

type_synonym ShardID = int

record BrokerRow =
  m :: Metric
  buffer :: "byte list"
  ShardID :: ShardID
  IsOutOfTimeRange :: bool

text \<open>The zero value \<open>BrokerRow{}\<close> that \<open>TryAppend\<close> appends as a fresh slot.\<close>

definition zero_row :: BrokerRow where
  "zero_row = \<lparr>m = \<lparr>Timestamp = 0, Hash = 0\<rparr>, buffer = [], ShardID = 0, IsOutOfTimeRange = False\<rparr>"

text \<open>\<open>flatbuffers.GetUint32\<close>: four bytes, little endian.\<close>

definition GetUint32 :: "byte list \<Rightarrow> 32 word" where
  "GetUint32 buf =
     ucast (buf ! 0) OR push_bit 8 (ucast (buf ! 1))
       OR push_bit 16 (ucast (buf ! 2)) OR push_bit 24 (ucast (buf ! 3))"

text \<open>
  \<open>FromBlock\<close> copies the block into the row's buffer, reads the size prefix, and
  initialises the metric on the partition behind the prefix. The parameter \<open>init\<close> stands
  for \<open>flatMetricsV1.Metric.Init\<close> (not under src/). \<open>encoding.MustCopy\<close> is taken to
  return a copy of the block whose capacity is its length, so that a read or a slice bound
  beyond the block panics. The sum \<open>SizeUOffsetT + size\<close> is a \<open>uint32\<close> and wraps.
  Only \<open>buffer\<close> and \<open>m\<close> are assigned.
\<close>

definition FromBlock :: "(byte list \<Rightarrow> 32 word \<Rightarrow> Metric) \<Rightarrow> BrokerRow \<Rightarrow> byte list \<Rightarrow> error + BrokerRow" where
  "FromBlock init row block =
     (let buf = block in
      if length buf < 4 then Inl (Panic ''index out of range'')
      else
        let size = GetUint32 buf;
            hi = (4 :: 32 word) + size in
        if unat hi < 4 \<or> length buf < unat hi then Inl (Panic ''slice bounds out of range'')
        else
          let partition = take (unat hi - 4) (drop 4 buf) in
          if length partition < 4 then Inl (Panic ''index out of range'')
          else Inr (row\<lparr>buffer := buf, m := init partition (GetUint32 partition)\<rparr>))"

definition Size :: "BrokerRow \<Rightarrow> nat" where
  "Size row = (if IsOutOfTimeRange row then 0 else length (buffer row))"

text \<open>
  An \<open>io.Writer\<close> is a state \<open>'w\<close> with a \<open>Write\<close> function returning the new state, the
  number of bytes written and an optional error.
\<close>

type_synonym 'w Writer = "'w \<Rightarrow> byte list \<Rightarrow> 'w \<times> nat \<times> error option"

definition WriteTo :: "'w Writer \<Rightarrow> BrokerRow \<Rightarrow> 'w \<Rightarrow> 'w \<times> nat \<times> error option" where
  "WriteTo writer_Write row w =
     (if IsOutOfTimeRange row then (w, 0, None) else writer_Write w (buffer row))"

record BrokerBatchRows =
  rows :: "BrokerRow list"
  rowCount :: nat

definition newBrokerBatchRows :: BrokerBatchRows where
  "newBrokerBatchRows = \<lparr>rows = [], rowCount = 0\<rparr>"

definition reset :: "BrokerBatchRows \<Rightarrow> BrokerBatchRows" where
  "reset br = br\<lparr>rowCount := 0\<rparr>"

text \<open>
  \<open>NewBrokerBatchRows\<close>: the argument is what \<open>brokerBatchRowsPool.Get()\<close> returned,
  \<open>None\<close> for \<open>nil\<close>.
\<close>

definition NewBrokerBatchRows :: "BrokerBatchRows option \<Rightarrow> BrokerBatchRows" where
  "NewBrokerBatchRows item =
     (case item of Some builder \<Rightarrow> reset builder | None \<Rightarrow> newBrokerBatchRows)"

definition Len :: "BrokerBatchRows \<Rightarrow> nat" where
  "Len br = rowCount br"

definition Rows :: "BrokerBatchRows \<Rightarrow> BrokerRow list" where
  "Rows br = take (rowCount br) (rows br)"

text \<open>
  Every method keeps \<open>rowCount \<le> len(rows)\<close>; the fields are private, so every batch a
  caller can hold satisfies it. An index below \<open>Len\<close> is then in range.
\<close>

definition wf_batch :: "BrokerBatchRows \<Rightarrow> bool" where
  "wf_batch br \<longleftrightarrow> rowCount br \<le> length (rows br)"

text \<open>
  The eviction test on one row; \<open>now\<close> is the value of \<open>fasttime.UnixMilliseconds()\<close>.
\<close>

definition evict_cond :: "int64 \<Rightarrow> int64 \<Rightarrow> int64 \<Rightarrow> BrokerRow \<Rightarrow> bool" where
  "evict_cond now behind ahead row \<longleftrightarrow>
     (0 < sint behind \<and> sint (Timestamp (m row)) < sint (now - behind)) \<or>
     (0 < sint ahead \<and> sint (now + ahead) < sint (Timestamp (m row)))"

function evict_loop :: "int64 \<Rightarrow> int64 \<Rightarrow> int64 \<Rightarrow> nat \<Rightarrow> BrokerBatchRows \<Rightarrow> nat \<Rightarrow> BrokerBatchRows \<times> nat" where
  "evict_loop now behind ahead idx br evicted =
     (if idx < Len br then
        (if evict_cond now behind ahead (rows br ! idx)
         then evict_loop now behind ahead (idx + 1)
                (br\<lparr>rows := (rows br)[idx := (rows br ! idx)\<lparr>IsOutOfTimeRange := True\<rparr>]\<rparr>) (evicted + 1)
         else evict_loop now behind ahead (idx + 1) br evicted)
      else (br, evicted))"
  by pat_completeness auto
termination
  by (relation "measure (\<lambda>(now, behind, ahead, idx, br, evicted). Len br - idx)")
     (auto simp: Len_def)

definition EvictOutOfTimeRange :: "int64 \<Rightarrow> int64 \<Rightarrow> int64 \<Rightarrow> BrokerBatchRows \<Rightarrow> BrokerBatchRows \<times> nat" where
  "EvictOutOfTimeRange now behind ahead br = evict_loop now behind ahead 0 br 0"

text \<open>
  \<open>TryAppend\<close>: the builder \<open>appendFunc\<close> receives a pointer to the slot at \<open>rowCount\<close>;
  it returns the slot as it left it and its error. The slot is written in either case, the
  count moves only on success.
\<close>

definition TryAppend :: "(BrokerRow \<Rightarrow> BrokerRow \<times> error option) \<Rightarrow> BrokerBatchRows \<Rightarrow> BrokerBatchRows \<times> error option" where
  "TryAppend appendFunc br =
     (let rs = (if length (rows br) \<le> rowCount br then rows br @ [zero_row] else rows br);
          (row', err) = appendFunc (rs ! rowCount br);
          br' = br\<lparr>rows := rs[rowCount br := row']\<rparr>
      in case err of
           Some e \<Rightarrow> (br', Some e)
         | None \<Rightarrow> (br'\<lparr>rowCount := rowCount br + 1\<rparr>, None))"

section \<open>Shard routing: the jump consistent hash\<close>

text \<open>
  Modelled from the spec: \<open>jump.Hash\<close> of github.com/lithammer/go-jump-consistent-hash
  (not under src/), the jump consistent hash that the spec names for shard routing:
  \<^verbatim>\<open>
  func Hash(key uint64, buckets int32) int32 {
      var b, j int64
      if buckets <= 0 { buckets = 1 }
      for j < int64(buckets) {
          b = j
          key = key*2862933555777941757 + 1
          j = int64(float64(b+1) * (float64(int64(1)<<31) / float64((key>>33)+1)))
      }
      return int32(b)
  }
  \<close>
  The key is a \<open>uint64\<close> and wraps. The step to the next \<open>j\<close> is computed in \<open>float64\<close>:
  a double is a rational here, and each conversion, division and multiplication rounds its
  exact result to 53 significant bits, ties to even (\<open>f64_round\<close>, for the values of at
  least 1 that occur). \<open>b\<close> and \<open>j\<close> are never negative and stay below \<open>2 ^ 62\<close>, so they
  are \<open>nat\<close>.
\<close>

definition rne :: "rat \<Rightarrow> int" where
  "rne x =
     (let f = \<lfloor>x\<rfloor>; d = x - of_int f
      in if d < 1 / 2 then f else if 1 / 2 < d then f + 1 else if even f then f else f + 1)"

definition f64_round :: "rat \<Rightarrow> rat" where
  "f64_round x =
     (let e = bitlen \<lfloor>x\<rfloor> - 1
      in if 52 \<le> e then of_int (rne (x / 2 ^ nat (e - 52))) * 2 ^ nat (e - 52)
         else of_int (rne (x * 2 ^ nat (52 - e))) / 2 ^ nat (52 - e))"

definition f64_of_int :: "int \<Rightarrow> rat" where
  "f64_of_int n = f64_round (of_int n)"

definition f64_mul :: "rat \<Rightarrow> rat \<Rightarrow> rat" where
  "f64_mul x y = f64_round (x * y)"

definition f64_div :: "rat \<Rightarrow> rat \<Rightarrow> rat" where
  "f64_div x y = f64_round (x / y)"

text \<open>
  Modelled from the spec: the new \<open>j\<close> of one pass of the loop of \<open>jump.Hash\<close>, from \<open>b\<close>
  and the key as the pass has updated it.
\<close>

definition jump_next :: "nat \<Rightarrow> uint64 \<Rightarrow> int" where
  "jump_next b key =
     \<lfloor>f64_mul (f64_of_int (int b + 1))
        (f64_div (f64_of_int (2 ^ 31)) (f64_of_int (uint (drop_bit 33 key) + 1)))\<rfloor>"

lemma rne_ge_floor: "\<lfloor>x\<rfloor> \<le> rne x"
  by (simp add: rne_def Let_def)

lemma rne_ge: "of_int k \<le> x \<Longrightarrow> k \<le> rne x"
  using rne_ge_floor [of x] by (meson le_floor_iff order_trans)

lemma f64_round_ge:
  assumes x1: "1 \<le> x" and nx: "of_int n \<le> x" and n52: "n \<le> 2 ^ 52"
  shows "of_int n \<le> f64_round x"
proof -
  define f where "f = \<lfloor>x\<rfloor>"
  define e where "e = bitlen f - 1"
  have f1: "1 \<le> f" using x1 by (simp add: f_def le_floor_iff)
  then have fpos: "0 < f" by simp
  from bitlen_bounds [OF fpos] have lo: "2 ^ nat e \<le> f" by (simp add: e_def)
  have e0: "0 \<le> e" using fpos by (simp add: e_def bitlen_def floorlog_def)
  have fx: "of_int f \<le> x" by (simp add: f_def)
  have lox: "(2::rat) ^ nat e \<le> x"
  proof -
    have "(of_int (2 ^ nat e) :: rat) \<le> of_int f" using lo by (simp only: of_int_le_iff)
    then have "(of_int (2 ^ nat e) :: rat) \<le> x" using fx by (rule order_trans)
    moreover have "(of_int (2 ^ nat e) :: rat) = 2 ^ nat e" by simp
    ultimately show ?thesis by (simp only:)
  qed
  show ?thesis
  proof (cases "52 \<le> e")
    case True
    then have ne: "nat e = nat (e - 52) + 52" by simp
    have "(2::rat) ^ 52 * 2 ^ nat (e - 52) = 2 ^ nat e"
      by (subst ne) (simp add: power_add)
    with lox have "(2::rat) ^ 52 \<le> x / 2 ^ nat (e - 52)"
      by (simp add: pos_le_divide_eq)
    then have "of_int (2 ^ 52) \<le> x / 2 ^ nat (e - 52)" by simp
    from rne_ge [OF this] have r: "2 ^ 52 \<le> rne (x / 2 ^ nat (e - 52))" .
    have "(of_int n :: rat) \<le> of_int (rne (x / 2 ^ nat (e - 52)))"
      using r n52 by (simp only: of_int_le_iff)
    also have "\<dots> \<le> of_int (rne (x / 2 ^ nat (e - 52))) * 2 ^ nat (e - 52)"
    proof -
      have "(1::rat) \<le> 2 ^ nat (e - 52)" by simp
      moreover have "(0::rat) \<le> of_int (rne (x / 2 ^ nat (e - 52)))" using r by simp
      ultimately show ?thesis by (simp add: mult_le_cancel_left1)
    qed
    finally show ?thesis using True by (simp add: f64_round_def Let_def f_def [symmetric] e_def [symmetric])
  next
    case False
    have "(of_int (n * 2 ^ nat (52 - e)) :: rat) \<le> x * 2 ^ nat (52 - e)"
      using nx by simp
    from rne_ge [OF this] have "n * 2 ^ nat (52 - e) \<le> rne (x * 2 ^ nat (52 - e))" .
    then have "(of_int (n * 2 ^ nat (52 - e)) :: rat) \<le> of_int (rne (x * 2 ^ nat (52 - e)))"
      by (simp only: of_int_le_iff)
    then have "(of_int n :: rat) \<le> of_int (rne (x * 2 ^ nat (52 - e))) / 2 ^ nat (52 - e)"
      by (simp add: pos_le_divide_eq)
    then show ?thesis using False by (simp add: f64_round_def Let_def f_def [symmetric] e_def [symmetric])
  qed
qed

lemma rne_of_int [simp]: "rne (of_int k) = k"
  by (simp add: rne_def)

lemma f64_round_exact:
  assumes k1: "1 \<le> k" and k52: "k < 2 ^ 52"
  shows "f64_round (of_int k) = of_int k"
proof -
  from k1 have kpos: "0 < k" by simp
  have "bitlen k \<le> 52" using k52 by (simp add: bitlen_le_iff_power)
  then have small: "\<not> 52 \<le> bitlen k - 1" by simp
  have "rne (of_int k * 2 ^ nat (52 - (bitlen k - 1))) = k * 2 ^ nat (52 - (bitlen k - 1))"
    using rne_of_int [of "k * 2 ^ nat (52 - (bitlen k - 1))"] by simp
  then show ?thesis using small by (simp add: f64_round_def Let_def)
qed

lemma uint_drop_bit_33: "uint (drop_bit 33 (key :: uint64)) < 2 ^ 31"
proof -
  have a: "unat (drop_bit 33 key) = drop_bit 33 (unat key)"
    by (rule unat_drop_bit_eq)
  have b: "drop_bit 33 (unat key) = unat key div 2 ^ 33"
    by (rule drop_bit_eq_div)
  have "unat key < 2 ^ 64" using unsigned_less [of key] by simp
  then have "unat key < 2 ^ 31 * 2 ^ 33" by simp
  then have "unat key div 2 ^ 33 < 2 ^ 31" by (rule less_mult_imp_div_less)
  with a b have "unat (drop_bit 33 key) < 2 ^ 31" by (simp only:)
  then have "int (unat (drop_bit 33 key)) < int (2 ^ 31)" by (simp only: of_nat_less_iff)
  then show ?thesis by simp
qed

lemma jump_next_gt:
  assumes b: "int b + 1 < 2 ^ 52"
  shows "int b + 1 \<le> jump_next b key"
proof -
  define k where "k = uint (drop_bit 33 key) + 1"
  have k1: "1 \<le> k" by (simp add: k_def)
  have k31: "k \<le> 2 ^ 31" using uint_drop_bit_33 [of key] by (simp add: k_def)
  then have k52: "k < 2 ^ 52" by simp
  have dk: "f64_of_int k = of_int k" using f64_round_exact [OF k1 k52] by (simp add: f64_of_int_def)
  have d31: "f64_of_int (2 ^ 31) = 2 ^ 31"
    using f64_round_exact [of "2 ^ 31"] by (simp add: f64_of_int_def)
  have db: "f64_of_int (int b + 1) = of_int (int b + 1)"
    using f64_round_exact [of "int b + 1"] b by (simp add: f64_of_int_def)
  define q where "q = f64_div (2 ^ 31) (of_int k)"
  have x1: "(1::rat) \<le> 2 ^ 31 / of_int k"
  proof -
    have "(of_int k :: rat) \<le> of_int (2 ^ 31)" using k31 by (simp only: of_int_le_iff)
    moreover have "(0::rat) < of_int k" using k1 by simp
    ultimately show ?thesis by (simp add: pos_le_divide_eq)
  qed
  have q1: "1 \<le> q"
    using f64_round_ge [OF x1, of 1] x1 by (simp add: q_def f64_div_def)
  have p1: "(of_int (int b + 1) :: rat) \<le> of_int (int b + 1) * q"
    using q1 by (simp add: mult_le_cancel_left1)
  have p0: "(1::rat) \<le> of_int (int b + 1) * q"
  proof -
    have "(1::rat) \<le> of_int (int b + 1)" by simp
    with p1 show ?thesis by linarith
  qed
  have "(of_int (int b + 1) :: rat) \<le> f64_round (of_int (int b + 1) * q)"
    using f64_round_ge [OF p0 p1] b by simp
  then have "int b + 1 \<le> \<lfloor>f64_round (of_int (int b + 1) * q)\<rfloor>"
    by (simp only: le_floor_iff)
  then show ?thesis
    by (simp only: jump_next_def f64_mul_def dk [unfolded k_def] d31 db q_def k_def)
qed

text \<open>
  Modelled from the spec: the loop of \<open>jump.Hash\<close>. It ends because every pass moves \<open>j\<close>
  to \<open>b + 1\<close> at least, which the lemma \<open>jump_next_gt\<close> above derives from the rounding.
\<close>

function jump_loop :: "32 word \<Rightarrow> nat \<Rightarrow> nat \<Rightarrow> uint64 \<Rightarrow> nat" where
  "jump_loop buckets b j key =
     (if int j < sint buckets then
        (let key' = key * 2862933555777941757 + 1
         in jump_loop buckets j (nat (jump_next j key')) key')
      else b)"
  by pat_completeness auto
termination
proof (relation "measure (\<lambda>(buckets, b, j, key). nat (sint buckets) - j)", goal_cases)
  case 1
  show ?case by simp
next
  case (2 buckets b j key key')
  have "sint buckets < 2 ^ 31" using sint_lt [of buckets] by simp
  with 2(1) have "int j + 1 < 2 ^ 52" by simp
  from jump_next_gt [OF this, of key'] have "j < nat (jump_next j key')" by simp
  with 2(1) show ?case by simp
qed

declare jump_loop.simps [simp del]

declare jump_loop.simps [code]

text \<open>
  Modelled from the spec: \<open>jump.Hash\<close>. A bucket count of zero or less counts as one; the
  result is converted to \<open>int32\<close>.
\<close>

definition jump_Hash :: "uint64 \<Rightarrow> 32 word \<Rightarrow> 32 word" where
  "jump_Hash key buckets =
     (let buckets = (if sint buckets \<le> 0 then 1 else buckets)
      in word_of_nat (jump_loop buckets 0 0 key))"

section \<open>Sorting and the two iterators (series/metric/row_broker.go)\<close>

text \<open>
  \<open>sort.Sort\<close> belongs to Go's standard library. It is a parameter here: a function from
  the \<open>Less\<close> of the \<open>sort.Interface\<close> and the elements to the sorted elements. Its
  documented contract is that the result holds the same elements, in ascending order as
  determined by \<open>Less\<close>; the sort is not guaranteed to be stable. Both \<open>Less\<close> methods of
  this file compare an integer key of the rows, and the contract is stated for such orders.
\<close>

type_synonym sorter = "(BrokerRow \<Rightarrow> BrokerRow \<Rightarrow> bool) \<Rightarrow> BrokerRow list \<Rightarrow> BrokerRow list"

definition sort_contract :: "sorter \<Rightarrow> bool" where
  "sort_contract srt \<longleftrightarrow>
     (\<forall>(key :: BrokerRow \<Rightarrow> int) xs.
        mset (srt (\<lambda>a b. key a < key b) xs) = mset xs
        \<and> sorted (map key (srt (\<lambda>a b. key a < key b) xs)))"

text \<open>\<open>BrokerBatchRows.Less\<close> and \<open>familySortedRows.Less\<close>, on the rows themselves.\<close>

definition Less :: "BrokerRow \<Rightarrow> BrokerRow \<Rightarrow> bool" where
  "Less a b \<longleftrightarrow> ShardID a < ShardID b"

definition Less_f :: "BrokerRow \<Rightarrow> BrokerRow \<Rightarrow> bool" where
  "Less_f a b \<longleftrightarrow> sint (Timestamp (m a)) < sint (Timestamp (m b))"

record BrokerBatchShardIterator =
  groupEnd :: nat
  groupStart :: nat
  groupShardID :: ShardID

text \<open>The loop of \<open>NewShardGroupIterator\<close> that stamps the rows below \<open>Len\<close>.\<close>

function stamp_loop :: "32 word \<Rightarrow> nat \<Rightarrow> BrokerBatchRows \<Rightarrow> BrokerBatchRows" where
  "stamp_loop numOfShards i br =
     (if i < Len br then
        stamp_loop numOfShards (i + 1)
          (br\<lparr>rows := (rows br)[i := (rows br ! i)
                    \<lparr>ShardID := sint (jump_Hash (Hash (m (rows br ! i))) numOfShards)\<rparr>]\<rparr>)
      else br)"
  by pat_completeness auto
termination
  by (relation "measure (\<lambda>(numOfShards, i, br). Len br - i)") (auto simp: Len_def)

declare stamp_loop.simps [simp del]

text \<open>
  \<open>Reset\<close> sorts the batch through its \<open>sort.Interface\<close>, whose \<open>Len\<close> is \<open>rowCount\<close>:
  the slots from \<open>rowCount\<close> on stay where they are.
\<close>

definition Reset :: "sorter \<Rightarrow> BrokerBatchRows \<Rightarrow> BrokerBatchRows \<times> BrokerBatchShardIterator" where
  "Reset srt br =
     (br\<lparr>rows := srt Less (take (Len br) (rows br)) @ drop (Len br) (rows br)\<rparr>,
      \<lparr>groupEnd = 0, groupStart = 0, groupShardID = - 1\<rparr>)"

definition NewShardGroupIterator :: "sorter \<Rightarrow> 32 word \<Rightarrow> BrokerBatchRows \<Rightarrow> BrokerBatchRows \<times> BrokerBatchShardIterator" where
  "NewShardGroupIterator srt numOfShards br = Reset srt (stamp_loop numOfShards 0 br)"

text \<open>What \<open>NewShardGroupIterator\<close> writes into a row.\<close>

definition stamp :: "32 word \<Rightarrow> BrokerRow \<Rightarrow> BrokerRow" where
  "stamp numOfShards row = row\<lparr>ShardID := sint (jump_Hash (Hash (m row)) numOfShards)\<rparr>"

text \<open>The inner loop of \<open>HasRowsForNextShard\<close>: it moves \<open>groupEnd\<close> over the run.\<close>

function shard_run_end :: "BrokerBatchRows \<Rightarrow> ShardID \<Rightarrow> nat \<Rightarrow> nat" where
  "shard_run_end br sid e =
     (if e < Len br then
        (if \<not> (ShardID (rows br ! e) = sid) then e else shard_run_end br sid (e + 1))
      else e)"
  by pat_completeness auto
termination
  by (relation "measure (\<lambda>(br, sid, e). Len br - e)") auto

declare shard_run_end.simps [simp del]

definition HasRowsForNextShard :: "BrokerBatchRows \<Rightarrow> BrokerBatchShardIterator \<Rightarrow> bool \<times> BrokerBatchShardIterator" where
  "HasRowsForNextShard br itr =
     (if Len br \<le> groupEnd itr \<or> groupEnd itr < groupStart itr then (False, itr)
      else
        let itr1 = itr\<lparr>groupShardID := ShardID (rows br ! groupEnd itr)\<rparr>;
            itr2 = itr1\<lparr>groupStart := groupEnd itr1\<rparr>;
            itr3 = itr2\<lparr>groupEnd := shard_run_end br (groupShardID itr2) (groupEnd itr2)\<rparr>
        in (groupStart itr3 < groupEnd itr3, itr3))"

text \<open>The slice \<open>s[lo:hi]\<close>.\<close>

definition subslice :: "'a list \<Rightarrow> nat \<Rightarrow> nat \<Rightarrow> 'a list" where
  "subslice s lo hi = take (hi - lo) (drop lo s)"

lemma shard_run_end_ge: "e \<le> shard_run_end br sid e"
proof (induction br sid e rule: shard_run_end.induct)
  case (1 br sid e)
  show ?case
  proof (cases "e < Len br \<and> ShardID (rows br ! e) = sid")
    case True
    with "1.IH" have "e + 1 \<le> shard_run_end br sid (e + 1)" by simp
    with True show ?thesis by (subst shard_run_end.simps) simp
  next
    case False
    then show ?thesis by (subst shard_run_end.simps) auto
  qed
qed

lemma shard_run_end_le: "e \<le> Len br \<Longrightarrow> shard_run_end br sid e \<le> Len br"
proof (induction br sid e rule: shard_run_end.induct)
  case (1 br sid e)
  show ?case
  proof (cases "e < Len br \<and> ShardID (rows br ! e) = sid")
    case True
    with "1.IH" have "shard_run_end br sid (e + 1) \<le> Len br" by simp
    with True show ?thesis by (subst shard_run_end.simps) simp
  next
    case False
    with "1.prems" show ?thesis by (subst shard_run_end.simps) auto
  qed
qed

lemma shard_run_end_all:
  "e \<le> i \<Longrightarrow> i < shard_run_end br sid e \<Longrightarrow> ShardID (rows br ! i) = sid"
proof (induction br sid e rule: shard_run_end.induct)
  case (1 br sid e)
  show ?case
  proof (cases "e < Len br \<and> ShardID (rows br ! e) = sid")
    case True
    then have eq: "shard_run_end br sid e = shard_run_end br sid (e + 1)"
      by (subst shard_run_end.simps) simp
    show ?thesis
    proof (cases "i = e")
      case True
      with \<open>e < Len br \<and> ShardID (rows br ! e) = sid\<close> show ?thesis by simp
    next
      case False
      with "1.prems" eq True "1.IH" show ?thesis by simp
    qed
  next
    case False
    then have "shard_run_end br sid e = e" by (subst shard_run_end.simps) auto
    with "1.prems" show ?thesis by simp
  qed
qed

lemma shard_run_end_stop:
  "shard_run_end br sid e < Len br \<Longrightarrow> ShardID (rows br ! shard_run_end br sid e) \<noteq> sid"
proof (induction br sid e rule: shard_run_end.induct)
  case (1 br sid e)
  show ?case
  proof (cases "e < Len br \<and> ShardID (rows br ! e) = sid")
    case True
    then have eq: "shard_run_end br sid e = shard_run_end br sid (e + 1)"
      by (subst shard_run_end.simps) simp
    with "1.IH" "1.prems" True show ?thesis by simp
  next
    case False
    then have eq: "shard_run_end br sid e = e" by (subst shard_run_end.simps) auto
    with "1.prems" False show ?thesis by simp
  qed
qed

lemma shard_run_end_step:
  "e < Len br \<Longrightarrow> e < shard_run_end br (ShardID (rows br ! e)) e"
  using shard_run_end_ge [of "e + 1" br "ShardID (rows br ! e)"]
  by (subst shard_run_end.simps) simp

lemma HasRowsForNextShard_next:
  assumes se: "groupStart itr \<le> groupEnd itr" and lt: "groupEnd itr < Len br"
  shows "HasRowsForNextShard br itr =
           (True, itr\<lparr>groupShardID := ShardID (rows br ! groupEnd itr),
                      groupStart := groupEnd itr,
                      groupEnd := shard_run_end br (ShardID (rows br ! groupEnd itr)) (groupEnd itr)\<rparr>)"
  using se lt shard_run_end_step [OF lt]
  by (simp add: HasRowsForNextShard_def Let_def)

lemma HasRowsForNextShard_progress:
  assumes "HasRowsForNextShard br itr = (True, itr')"
  shows "groupEnd itr < groupEnd itr' \<and> groupEnd itr' \<le> Len br \<and> groupStart itr' \<le> groupEnd itr'"
proof (cases "Len br \<le> groupEnd itr \<or> groupEnd itr < groupStart itr")
  case True
  with assms show ?thesis by (simp add: HasRowsForNextShard_def)
next
  case False
  then have se: "groupStart itr \<le> groupEnd itr" and lt: "groupEnd itr < Len br" by simp_all
  have "shard_run_end br (ShardID (rows br ! groupEnd itr)) (groupEnd itr) \<le> Len br"
    using lt by (intro shard_run_end_le) simp
  with assms HasRowsForNextShard_next [OF se lt] shard_run_end_step [OF lt]
  show ?thesis by auto
qed

text \<open>
  The caller's loop \<open>for itr.HasRowsForNextShard() { ... }\<close>: the shard groups the iterator
  selects, each with its shard id and its rows \<open>rows[groupStart:groupEnd]\<close>, in order.
\<close>

function shard_groups :: "BrokerBatchRows \<Rightarrow> BrokerBatchShardIterator \<Rightarrow> (ShardID \<times> BrokerRow list) list" where
  "shard_groups br itr =
     (case HasRowsForNextShard br itr of
        (True, itr') \<Rightarrow>
          (groupShardID itr', subslice (rows br) (groupStart itr') (groupEnd itr')) # shard_groups br itr'
      | (False, itr') \<Rightarrow> [])"
  by pat_completeness auto
termination
proof (relation "measure (\<lambda>(br, itr). Len br - groupEnd itr)", goal_cases)
  case 1
  show ?case by simp
next
  case (2 br itr ok itr')
  then have "HasRowsForNextShard br itr = (True, itr')" by simp
  from HasRowsForNextShard_progress [OF this] show ?case by auto
qed

declare shard_groups.simps [simp del]

text \<open>
  Modelled from the spec: \<open>timeutil.IntervalCalculator\<close> and \<open>timeutil.TimeRange\<close>
  (pkg/timeutil, not under src/). The calculator of the configured interval is a parameter,
  the four functions the iterator calls; a time range contains the timestamps from its start
  to its end, both included.
\<close>

record IntervalCalculator =
  CalcSegmentTime :: "int64 \<Rightarrow> int64"
  CalcFamily :: "int64 \<Rightarrow> int64 \<Rightarrow> int"
  CalcFamilyStartTime :: "int64 \<Rightarrow> int \<Rightarrow> int64"
  CalcFamilyEndTime :: "int64 \<Rightarrow> int64"

record TimeRange =
  Start :: int64
  End :: int64

text \<open>
  Modelled from the spec: \<open>TimeRange.Contains\<close>. The window of a family runs from its start
  to its end, both included.
\<close>

definition Contains :: "TimeRange \<Rightarrow> int64 \<Rightarrow> bool" where
  "Contains r timestamp \<longleftrightarrow> sint (Start r) \<le> sint timestamp \<and> sint timestamp \<le> sint (End r)"

record BrokerBatchShardFamilyIterator =
  groupEnd_f :: nat
  groupStart_f :: nat
  groupFamilyTime :: int64
  sameFamily :: bool
  rows_f :: "BrokerRow list"
  intervalCalc :: IntervalCalculator

text \<open>
  \<open>familyTimeOfTimestamp\<close> and \<open>timeRangeOfTimestamp\<close> read nothing of the iterator but
  its \<open>intervalCalc\<close>, which is their first argument here.
\<close>

definition familyTimeOfTimestamp :: "IntervalCalculator \<Rightarrow> int64 \<Rightarrow> int64" where
  "familyTimeOfTimestamp calc timestamp =
     (let segmentTime = CalcSegmentTime calc timestamp;
          family = CalcFamily calc timestamp segmentTime
      in CalcFamilyStartTime calc segmentTime family)"

definition timeRangeOfTimestamp :: "IntervalCalculator \<Rightarrow> int64 \<Rightarrow> TimeRange" where
  "timeRangeOfTimestamp calc timestamp =
     (let segmentTime = CalcSegmentTime calc timestamp;
          family = CalcFamily calc timestamp segmentTime;
          familyStartTime = CalcFamilyStartTime calc segmentTime family
      in \<lparr>Start = familyStartTime, End = CalcFamilyEndTime calc familyStartTime\<rparr>)"

text \<open>The loop of \<open>isSameFamily\<close> from index \<open>i\<close>.\<close>

function same_family_from :: "BrokerRow list \<Rightarrow> TimeRange \<Rightarrow> nat \<Rightarrow> bool" where
  "same_family_from rs timeRange i =
     (if i < length rs then
        (if \<not> Contains timeRange (Timestamp (m (rs ! i))) then False
         else same_family_from rs timeRange (i + 1))
      else True)"
  by pat_completeness auto
termination
  by (relation "measure (\<lambda>(rs, timeRange, i). length rs - i)") auto

declare same_family_from.simps [simp del]

definition isSameFamily :: "BrokerBatchShardFamilyIterator \<Rightarrow> bool \<times> BrokerBatchShardFamilyIterator" where
  "isSameFamily itr =
     (if length (rows_f itr) = 0 then (True, itr)
      else
        let firstTimestamp = Timestamp (m (rows_f itr ! 0));
            itr1 = itr\<lparr>groupFamilyTime := familyTimeOfTimestamp (intervalCalc itr) firstTimestamp\<rparr>;
            timeRange = timeRangeOfTimestamp (intervalCalc itr1) firstTimestamp
        in (same_family_from (rows_f itr1) timeRange 1, itr1))"

text \<open>
  \<open>reset\<close> of the family iterator. The previous contents of the iterator are overwritten
  except \<open>sameFamily\<close>, which \<open>isSameFamily\<close> then sets.
\<close>

definition reset_f :: "sorter \<Rightarrow> BrokerBatchShardFamilyIterator \<Rightarrow> BrokerRow list \<Rightarrow> IntervalCalculator \<Rightarrow> BrokerBatchShardFamilyIterator" where
  "reset_f srt itr rs calc =
     (let itr1 = itr\<lparr>groupEnd_f := 0, groupStart_f := 0, rows_f := rs, intervalCalc := calc,
                     groupFamilyTime := 0\<rparr>;
          (same, itr2) = isSameFamily itr1;
          itr3 = itr2\<lparr>sameFamily := same\<rparr>
      in if sameFamily itr3 then itr3 else itr3\<lparr>rows_f := srt Less_f (rows_f itr3)\<rparr>)"

text \<open>The inner loop of \<open>HasNextFamily\<close>.\<close>

function family_run_end :: "BrokerRow list \<Rightarrow> TimeRange \<Rightarrow> nat \<Rightarrow> nat" where
  "family_run_end rs timeRange e =
     (if e < length rs then
        (if \<not> Contains timeRange (Timestamp (m (rs ! e))) then e
         else family_run_end rs timeRange (e + 1))
      else e)"
  by pat_completeness auto
termination
  by (relation "measure (\<lambda>(rs, timeRange, e). length rs - e)") auto

declare family_run_end.simps [simp del]

definition HasNextFamily :: "BrokerBatchShardFamilyIterator \<Rightarrow> bool \<times> BrokerBatchShardFamilyIterator" where
  "HasNextFamily itr =
     (if length (rows_f itr) \<le> groupEnd_f itr \<or> groupEnd_f itr < groupStart_f itr then (False, itr)
      else if sameFamily itr then
        (True, itr\<lparr>groupEnd_f := length (rows_f itr), groupStart_f := 0\<rparr>)
      else
        let firstTimestamp = Timestamp (m (rows_f itr ! groupEnd_f itr));
            timeRange = timeRangeOfTimestamp (intervalCalc itr) firstTimestamp;
            itr1 = itr\<lparr>groupStart_f := groupEnd_f itr\<rparr>;
            itr2 = itr1\<lparr>groupFamilyTime := familyTimeOfTimestamp (intervalCalc itr1) firstTimestamp\<rparr>;
            itr3 = itr2\<lparr>groupEnd_f := family_run_end (rows_f itr2) timeRange (groupEnd_f itr2)\<rparr>
        in (groupStart_f itr3 < groupEnd_f itr3, itr3))"

definition NextFamily :: "BrokerBatchShardFamilyIterator \<Rightarrow> int64 \<times> BrokerRow list" where
  "NextFamily itr = (groupFamilyTime itr, subslice (rows_f itr) (groupStart_f itr) (groupEnd_f itr))"

text \<open>
  \<open>FamilyRowsForNextShard\<close> resets the family iterator on the slice of the current shard
  group. The slice shares the batch's array, so a sort of the slice reorders the batch: the
  batch is returned with the slice as the iterator left it.
\<close>

definition FamilyRowsForNextShard :: "sorter \<Rightarrow> IntervalCalculator \<Rightarrow> BrokerBatchRows \<Rightarrow> BrokerBatchShardIterator \<Rightarrow> BrokerBatchShardFamilyIterator \<Rightarrow> ShardID \<times> BrokerBatchShardFamilyIterator \<times> BrokerBatchRows" where
  "FamilyRowsForNextShard srt interval br itr familyIterator =
     (let familyIterator' = reset_f srt familyIterator
                              (subslice (rows br) (groupStart itr) (groupEnd itr)) interval
      in (groupShardID itr, familyIterator',
          br\<lparr>rows := take (groupStart itr) (rows br) @ rows_f familyIterator'
                        @ drop (groupEnd itr) (rows br)\<rparr>))"

lemma family_run_end_ge: "e \<le> family_run_end rs timeRange e"
proof (induction rs timeRange e rule: family_run_end.induct)
  case (1 rs timeRange e)
  show ?case
  proof (cases "e < length rs \<and> Contains timeRange (Timestamp (m (rs ! e)))")
    case True
    with "1.IH" have "e + 1 \<le> family_run_end rs timeRange (e + 1)" by simp
    with True show ?thesis by (subst family_run_end.simps) simp
  next
    case False
    then show ?thesis by (subst family_run_end.simps) auto
  qed
qed

lemma family_run_end_le: "e \<le> length rs \<Longrightarrow> family_run_end rs timeRange e \<le> length rs"
proof (induction rs timeRange e rule: family_run_end.induct)
  case (1 rs timeRange e)
  show ?case
  proof (cases "e < length rs \<and> Contains timeRange (Timestamp (m (rs ! e)))")
    case True
    with "1.IH" have "family_run_end rs timeRange (e + 1) \<le> length rs" by simp
    with True show ?thesis by (subst family_run_end.simps) simp
  next
    case False
    with "1.prems" show ?thesis by (subst family_run_end.simps) auto
  qed
qed

lemma family_run_end_all:
  "e \<le> i \<Longrightarrow> i < family_run_end rs timeRange e \<Longrightarrow> Contains timeRange (Timestamp (m (rs ! i)))"
proof (induction rs timeRange e rule: family_run_end.induct)
  case (1 rs timeRange e)
  show ?case
  proof (cases "e < length rs \<and> Contains timeRange (Timestamp (m (rs ! e)))")
    case True
    then have eq: "family_run_end rs timeRange e = family_run_end rs timeRange (e + 1)"
      by (subst family_run_end.simps) simp
    show ?thesis
    proof (cases "i = e")
      case True
      with \<open>e < length rs \<and> Contains timeRange (Timestamp (m (rs ! e)))\<close> show ?thesis by simp
    next
      case False
      with "1.prems" eq True "1.IH" show ?thesis by simp
    qed
  next
    case False
    then have "family_run_end rs timeRange e = e" by (subst family_run_end.simps) auto
    with "1.prems" show ?thesis by simp
  qed
qed

lemma family_run_end_stop:
  "family_run_end rs timeRange e < length rs \<Longrightarrow>
   \<not> Contains timeRange (Timestamp (m (rs ! family_run_end rs timeRange e)))"
proof (induction rs timeRange e rule: family_run_end.induct)
  case (1 rs timeRange e)
  show ?case
  proof (cases "e < length rs \<and> Contains timeRange (Timestamp (m (rs ! e)))")
    case True
    then have eq: "family_run_end rs timeRange e = family_run_end rs timeRange (e + 1)"
      by (subst family_run_end.simps) simp
    with "1.IH" "1.prems" True show ?thesis by simp
  next
    case False
    then have eq: "family_run_end rs timeRange e = e" by (subst family_run_end.simps) auto
    with "1.prems" False show ?thesis by simp
  qed
qed

lemma family_run_end_step:
  "e < length rs \<Longrightarrow> Contains timeRange (Timestamp (m (rs ! e))) \<Longrightarrow>
   e < family_run_end rs timeRange e"
  using family_run_end_ge [of "e + 1" rs timeRange]
  by (subst family_run_end.simps) simp

lemma HasNextFamily_progress:
  assumes "HasNextFamily itr = (True, itr')"
  shows "rows_f itr' = rows_f itr \<and> intervalCalc itr' = intervalCalc itr
     \<and> sameFamily itr' = sameFamily itr
     \<and> groupEnd_f itr < groupEnd_f itr' \<and> groupEnd_f itr' \<le> length (rows_f itr)
     \<and> groupStart_f itr' \<le> groupEnd_f itr'"
proof (cases "length (rows_f itr) \<le> groupEnd_f itr \<or> groupEnd_f itr < groupStart_f itr")
  case True
  with assms show ?thesis by (simp add: HasNextFamily_def)
next
  case False
  show ?thesis
  proof (cases "sameFamily itr")
    case True
    with False assms show ?thesis by (auto simp: HasNextFamily_def)
  next
    case nsame: False
    have "family_run_end (rows_f itr)
            (timeRangeOfTimestamp (intervalCalc itr) (Timestamp (m (rows_f itr ! groupEnd_f itr))))
            (groupEnd_f itr) \<le> length (rows_f itr)"
      using False by (intro family_run_end_le) simp
    with False nsame assms show ?thesis
      by (auto simp: HasNextFamily_def Let_def)
  qed
qed

text \<open>
  The caller's loop \<open>for itr.HasNextFamily() { familyTime, rows := itr.NextFamily(); ... }\<close>:
  the groups the iterator emits, in order.
\<close>

function family_groups :: "BrokerBatchShardFamilyIterator \<Rightarrow> (int64 \<times> BrokerRow list) list" where
  "family_groups itr =
     (case HasNextFamily itr of
        (True, itr') \<Rightarrow> NextFamily itr' # family_groups itr'
      | (False, itr') \<Rightarrow> [])"
  by pat_completeness auto
termination
proof (relation "measure (\<lambda>itr. length (rows_f itr) - groupEnd_f itr)", goal_cases)
  case 1
  show ?case by simp
next
  case (2 itr ok itr')
  then have "HasNextFamily itr = (True, itr')" by simp
  from HasNextFamily_progress [OF this] show ?case by auto
qed

declare family_groups.simps [simp del]

text \<open>The test of \<open>isSameFamily\<close> on a slice: the fast path of \<open>reset\<close>.\<close>

definition one_family :: "IntervalCalculator \<Rightarrow> BrokerRow list \<Rightarrow> bool" where
  "one_family calc rs \<longleftrightarrow>
     rs = [] \<or> same_family_from rs (timeRangeOfTimestamp calc (Timestamp (m (rs ! 0)))) 1"

text \<open>
  What the theorems ask of the interval calculator on the timestamps of a slice: a
  timestamp lies in its own family window, and a later timestamp has no earlier family
  start.
\<close>

definition calculator_fits :: "IntervalCalculator \<Rightarrow> BrokerRow list \<Rightarrow> bool" where
  "calculator_fits calc rs \<longleftrightarrow>
     (\<forall>r \<in> set rs. Contains (timeRangeOfTimestamp calc (Timestamp (m r))) (Timestamp (m r)))
   \<and> (\<forall>r \<in> set rs. \<forall>r' \<in> set rs.
          sint (Timestamp (m r)) \<le> sint (Timestamp (m r')) \<longrightarrow>
          sint (familyTimeOfTimestamp calc (Timestamp (m r)))
            \<le> sint (familyTimeOfTimestamp calc (Timestamp (m r'))))"

subsection \<open>Sorters and inputs of the examples\<close>

text \<open>
  A sorter that meets the contract and keeps equal keys in their order: insertion from the
  right, as the insertion sort of Go's \<open>sort\<close> package does on short slices.
\<close>

fun insort_by :: "(BrokerRow \<Rightarrow> BrokerRow \<Rightarrow> bool) \<Rightarrow> BrokerRow \<Rightarrow> BrokerRow list \<Rightarrow> BrokerRow list" where
  "insort_by lt x [] = [x]"
| "insort_by lt x (y # ys) = (if lt y x then y # insort_by lt x ys else x # y # ys)"

definition insertion_sorter :: sorter where
  "insertion_sorter lt xs = foldr (insort_by lt) xs []"


text \<open>
  A builder that decodes a block into the slot with \<open>FromBlock\<close> and touches nothing
  else: the shape of a builder that does not clear the flag.
\<close>

definition fromBlockBuilder :: "(byte list \<Rightarrow> 32 word \<Rightarrow> Metric) \<Rightarrow> byte list \<Rightarrow> BrokerRow \<Rightarrow> BrokerRow \<times> error option" where
  "fromBlockBuilder init block row =
     (case FromBlock init row block of Inr row' \<Rightarrow> (row', None) | Inl e \<Rightarrow> (row, Some e))"

definition ex_block :: "byte list" where
  "ex_block = [8, 0, 0, 0, 4, 0, 0, 0, 0, 0, 0, 0]"

definition ex_init :: "byte list \<Rightarrow> 32 word \<Rightarrow> Metric" where
  "ex_init part off = \<lparr>Timestamp = 100, Hash = 9\<rparr>"

definition ex_row :: "int \<Rightarrow> BrokerRow" where
  "ex_row t = \<lparr>m = \<lparr>Timestamp = word_of_int t, Hash = 7\<rparr>, buffer = [1, 2, 3], ShardID = 0, IsOutOfTimeRange = False\<rparr>"

definition ex_used :: BrokerBatchRows where
  "ex_used = \<lparr>rows = [(ex_row 10)\<lparr>IsOutOfTimeRange := True\<rparr>], rowCount = 1\<rparr>"

definition ex_batch :: BrokerBatchRows where
  "ex_batch = \<lparr>rows = [ex_row 100, ex_row 10, ex_row 1000, ex_row 5], rowCount = 3\<rparr>"

definition ex_hash_row :: "uint64 \<Rightarrow> BrokerRow" where
  "ex_hash_row h = \<lparr>m = \<lparr>Timestamp = 1000, Hash = h\<rparr>, buffer = [1], ShardID = 0, IsOutOfTimeRange = False\<rparr>"

definition ex_shard_batch :: BrokerBatchRows where
  "ex_shard_batch = \<lparr>rows = [ex_hash_row 2, ex_hash_row 4, ex_hash_row 1, ex_hash_row 9], rowCount = 3\<rparr>"

text \<open>
  An interval calculator for the examples: segments are days and families are hours, counted
  from the epoch (\<open>timeutil\<close>'s day calculator uses the local time zone instead).
\<close>

definition ex_calc :: IntervalCalculator where
  "ex_calc =
     \<lparr>CalcSegmentTime = (\<lambda>timestamp. timestamp - timestamp mod 86400000),
      CalcFamily = (\<lambda>timestamp segmentTime. sint ((timestamp - segmentTime) div 3600000)),
      CalcFamilyStartTime = (\<lambda>segmentTime family. segmentTime + word_of_int family * 3600000),
      CalcFamilyEndTime = (\<lambda>familyStartTime. familyStartTime + 3600000 - 1)\<rparr>"

definition ex_time_row :: "int64 \<Rightarrow> uint64 \<Rightarrow> BrokerRow" where
  "ex_time_row t h = \<lparr>m = \<lparr>Timestamp = t, Hash = h\<rparr>, buffer = [1], ShardID = 0, IsOutOfTimeRange = False\<rparr>"

definition ex_family_batch :: BrokerBatchRows where
  "ex_family_batch = \<lparr>rows = [ex_time_row 7201000 1, ex_time_row 1000 2], rowCount = 2\<rparr>"

definition ex_shard_itr :: BrokerBatchShardIterator where
  "ex_shard_itr = \<lparr>groupEnd = 2, groupStart = 0, groupShardID = 0\<rparr>"

definition ex_family_itr :: BrokerBatchShardFamilyIterator where
  "ex_family_itr = \<lparr>groupEnd_f = 0, groupStart_f = 0, groupFamilyTime = 0, sameFamily = False,
                     rows_f = [], intervalCalc = ex_calc\<rparr>"



section \<open>The jump consistent hash stays below the number of buckets\<close>

lemma jump_loop_range:
  "int b < sint buckets \<Longrightarrow> int (jump_loop buckets b j key) < sint buckets"
proof (induction buckets b j key rule: jump_loop.induct)
  case (1 buckets b j key)
  show ?case
  proof (cases "int j < sint buckets")
    case True
    with "1.IH" [OF True refl True] show ?thesis
      by (subst jump_loop.simps) (simp add: Let_def)
  next
    case False
    with "1.prems" show ?thesis by (subst jump_loop.simps) simp
  qed
qed

lemma jump_Hash_range:
  assumes "1 \<le> sint buckets"
  shows "0 \<le> sint (jump_Hash key buckets) \<and> sint (jump_Hash key buckets) < sint buckets"
proof -
  let ?r = "jump_loop buckets 0 0 key"
  have lt: "int ?r < sint buckets" using jump_loop_range [of 0 buckets 0 key] assms by simp
  have "sint buckets < 2 ^ 31" using sint_lt [of buckets] by simp
  with lt have small: "int ?r < 2 ^ 31" by simp
  have "signed_take_bit 31 (int ?r) = int ?r"
    using small by (intro signed_take_bit_int_eq_self) simp_all
  then have "sint (word_of_nat ?r :: 32 word) = int ?r"
    by (simp add: signed_of_nat)
  with lt assms show ?thesis by (simp add: jump_Hash_def)
qed

lemma jump_Hash_one_bucket: "jump_Hash key 1 = 0"
proof -
  have "0 \<le> sint (jump_Hash key 1) \<and> sint (jump_Hash key 1) < sint (1 :: 32 word)"
    by (rule jump_Hash_range) simp
  then have "sint (jump_Hash key 1) = sint (0 :: 32 word)" by simp
  then show ?thesis by (rule signed_word_eqI)
qed

text \<open>The values the library's own tests and documentation give.\<close>

lemma jump_Hash_known_values:
  "jump_Hash 256 1024 = 520"
  "jump_Hash 42 57 = 43"
  "jump_Hash 0xDEAD10CC 666 = 361"
  "jump_Hash 0xDEAD10CC 1 = 0"
  by code_simp+

lemma ex_jump_values: "jump_Hash 2 4 = 3" "jump_Hash 4 4 = 1" "jump_Hash 1 4 = 0"
  by code_simp+

section \<open>Eviction of rows outside the accepted time range\<close>

lemma evict_loop_frame:
  "evict_loop now behind ahead idx br evicted = (br', evicted') \<Longrightarrow>
   rowCount br' = rowCount br \<and> length (rows br') = length (rows br)"
proof (induction now behind ahead idx br evicted rule: evict_loop.induct)
  case (1 now behind ahead idx br evicted)
  show ?case
  proof (cases "idx < Len br")
    case False
    with "1.prems" show ?thesis by simp
  next
    case True
    show ?thesis
    proof (cases "evict_cond now behind ahead (rows br ! idx)")
      case True
      with "1.IH"(1) "1.prems" \<open>idx < Len br\<close> show ?thesis by simp
    next
      case False
      with "1.IH"(2) "1.prems" \<open>idx < Len br\<close> show ?thesis by simp
    qed
  qed
qed

lemma evict_loop_rows:
  "evict_loop now behind ahead idx br evicted = (br', evicted') \<Longrightarrow>
   rowCount br \<le> length (rows br) \<Longrightarrow> i < length (rows br) \<Longrightarrow>
   rows br' ! i =
     (if idx \<le> i \<and> i < rowCount br \<and> evict_cond now behind ahead (rows br ! i)
      then (rows br ! i)\<lparr>IsOutOfTimeRange := True\<rparr> else rows br ! i)"
proof (induction now behind ahead idx br evicted rule: evict_loop.induct)
  case (1 now behind ahead idx br evicted)
  show ?case
  proof (cases "idx < Len br")
    case False
    with "1.prems" show ?thesis by (auto simp: Len_def)
  next
    case lt: True
    show ?thesis
    proof (cases "evict_cond now behind ahead (rows br ! idx)")
      case True
      with "1.IH"(1) "1.prems" lt show ?thesis
        by (auto simp: Len_def nth_list_update)
    next
      case False
      with "1.IH"(2) "1.prems" lt show ?thesis
        by (cases "i = idx") (auto simp: Len_def)
    qed
  qed
qed

lemma evict_loop_count:
  "evict_loop now behind ahead idx br evicted = (br', evicted') \<Longrightarrow>
   rowCount br \<le> length (rows br) \<Longrightarrow>
   evicted' = evicted + length (filter (evict_cond now behind ahead) (drop idx (take (rowCount br) (rows br))))"
proof (induction now behind ahead idx br evicted rule: evict_loop.induct)
  case (1 now behind ahead idx br evicted)
  show ?case
  proof (cases "idx < Len br")
    case False
    with "1.prems" show ?thesis by (auto simp: Len_def)
  next
    case lt: True
    then have d: "drop idx (take (rowCount br) (rows br)) = rows br ! idx # drop (Suc idx) (take (rowCount br) (rows br))"
      using "1.prems"(2) Cons_nth_drop_Suc [of idx "take (rowCount br) (rows br)"]
      by (simp add: Len_def)
    show ?thesis
    proof (cases "evict_cond now behind ahead (rows br ! idx)")
      case True
      with "1.IH"(1) "1.prems" lt d show ?thesis
        by (auto simp: Len_def take_update_swap drop_update_cancel)
    next
      case False
      with "1.IH"(2) "1.prems" lt d show ?thesis
        by (auto simp: Len_def)
    qed
  qed
qed

text \<open>
  Where neither \<open>now - behind\<close> nor \<open>now + ahead\<close> leaves the range of \<open>int64\<close>, the test
  is the one on the integers.
\<close>

lemma evict_cond_no_overflow:
  assumes "- (2 ^ 63) \<le> sint now - sint behind" and "sint now - sint behind < 2 ^ 63"
    and "- (2 ^ 63) \<le> sint now + sint ahead" and "sint now + sint ahead < 2 ^ 63"
  shows "evict_cond now behind ahead row \<longleftrightarrow>
     (0 < sint behind \<and> sint (Timestamp (m row)) < sint now - sint behind) \<or>
     (0 < sint ahead \<and> sint now + sint ahead < sint (Timestamp (m row)))"
proof -
  have "sint (now - behind) = signed_take_bit 63 (sint now - sint behind)"
    by (simp add: sint_word_ariths)
  also have "\<dots> = sint now - sint behind"
    using assms(1,2) by (intro signed_take_bit_int_eq_self) simp_all
  finally have a: "sint (now - behind) = sint now - sint behind" .
  have "sint (now + ahead) = signed_take_bit 63 (sint now + sint ahead)"
    by (simp add: sint_word_ariths)
  also have "\<dots> = sint now + sint ahead"
    using assms(3,4) by (intro signed_take_bit_int_eq_self) simp_all
  finally have b: "sint (now + ahead) = sint now + sint ahead" .
  show ?thesis by (simp only: evict_cond_def a b)
qed

text \<open>
  Claim C7. \<open>EvictOutOfTimeRange\<close> sets the flag of exactly the rows below \<open>Len\<close> whose
  timestamp is below \<open>now - behind\<close> (only when \<open>behind > 0\<close>) or above \<open>now + ahead\<close>
  (only when \<open>ahead > 0\<close>), in \<open>int64\<close> arithmetic; every other field and every other
  slot is unchanged. It returns the number of those rows. A flagged row has \<open>Size\<close> 0 and
  \<open>WriteTo\<close> leaves the writer alone and returns 0 bytes, and \<open>Len\<close> is unchanged.
\<close>

theorem EvictOutOfTimeRange_marks:
  assumes wfb: "wf_batch br"
    and ev: "EvictOutOfTimeRange now behind ahead br = (br', evicted)"
  shows "Len br' = Len br \<and> length (rows br') = length (rows br)
    \<and> (\<forall>i < Len br.
          rows br' ! i = (rows br ! i)\<lparr>IsOutOfTimeRange :=
            IsOutOfTimeRange (rows br ! i)
            \<or> (0 < sint behind \<and> sint (Timestamp (m (rows br ! i))) < sint (now - behind))
            \<or> (0 < sint ahead \<and> sint (now + ahead) < sint (Timestamp (m (rows br ! i))))\<rparr>)
    \<and> (\<forall>i. Len br \<le> i \<and> i < length (rows br) \<longrightarrow> rows br' ! i = rows br ! i)
    \<and> evicted = card {i. i < Len br
            \<and> ((0 < sint behind \<and> sint (Timestamp (m (rows br ! i))) < sint (now - behind))
              \<or> (0 < sint ahead \<and> sint (now + ahead) < sint (Timestamp (m (rows br ! i)))))}
    \<and> (\<forall>i < Len br. IsOutOfTimeRange (rows br' ! i) \<longrightarrow>
          Size (rows br' ! i) = 0 \<and> WriteTo writer_Write (rows br' ! i) w = (w, 0, None))"
proof -
  from wfb have wf: "rowCount br \<le> length (rows br)" by (simp add: wf_batch_def)
  from ev have loop: "evict_loop now behind ahead 0 br 0 = (br', evicted)"
    by (simp add: EvictOutOfTimeRange_def)
  have fr: "rowCount br' = rowCount br" "length (rows br') = length (rows br)"
    using evict_loop_frame [OF loop] by simp_all
  have nth: "\<And>i. i < length (rows br) \<Longrightarrow> rows br' ! i =
      (if i < rowCount br \<and> evict_cond now behind ahead (rows br ! i)
       then (rows br ! i)\<lparr>IsOutOfTimeRange := True\<rparr> else rows br ! i)"
    using evict_loop_rows [OF loop wf] by simp
  have cnt: "evicted = length (filter (evict_cond now behind ahead) (take (rowCount br) (rows br)))"
    using evict_loop_count [OF loop wf] by simp
  have c1: "Len br' = Len br" using fr by (simp add: Len_def)
  have c3: "\<forall>i < Len br.
          rows br' ! i = (rows br ! i)\<lparr>IsOutOfTimeRange :=
            IsOutOfTimeRange (rows br ! i)
            \<or> (0 < sint behind \<and> sint (Timestamp (m (rows br ! i))) < sint (now - behind))
            \<or> (0 < sint ahead \<and> sint (now + ahead) < sint (Timestamp (m (rows br ! i))))\<rparr>"
  proof (intro allI impI)
    fix i assume "i < Len br"
    then have i: "i < rowCount br" "i < length (rows br)" using wf by (simp_all add: Len_def)
    show "rows br' ! i = (rows br ! i)\<lparr>IsOutOfTimeRange :=
            IsOutOfTimeRange (rows br ! i)
            \<or> (0 < sint behind \<and> sint (Timestamp (m (rows br ! i))) < sint (now - behind))
            \<or> (0 < sint ahead \<and> sint (now + ahead) < sint (Timestamp (m (rows br ! i))))\<rparr>"
      using nth [OF i(2)] i(1) by (auto simp: evict_cond_def)
  qed
  have c4: "\<forall>i. Len br \<le> i \<and> i < length (rows br) \<longrightarrow> rows br' ! i = rows br ! i"
    using nth by (auto simp: Len_def)
  have "length (filter (evict_cond now behind ahead) (take (rowCount br) (rows br)))
      = card {i. i < length (take (rowCount br) (rows br))
               \<and> evict_cond now behind ahead (take (rowCount br) (rows br) ! i)}"
    by (rule length_filter_conv_card)
  also have "{i. i < length (take (rowCount br) (rows br))
               \<and> evict_cond now behind ahead (take (rowCount br) (rows br) ! i)}
      = {i. i < Len br \<and> evict_cond now behind ahead (rows br ! i)}"
    using wf by (auto simp: Len_def)
  finally have "evicted = card {i. i < Len br \<and> evict_cond now behind ahead (rows br ! i)}"
    using cnt by simp
  then have c5: "evicted = card {i. i < Len br
            \<and> ((0 < sint behind \<and> sint (Timestamp (m (rows br ! i))) < sint (now - behind))
              \<or> (0 < sint ahead \<and> sint (now + ahead) < sint (Timestamp (m (rows br ! i)))))}"
    by (simp only: evict_cond_def)
  have c6: "\<forall>i < Len br. IsOutOfTimeRange (rows br' ! i) \<longrightarrow>
          Size (rows br' ! i) = 0 \<and> WriteTo writer_Write (rows br' ! i) w = (w, 0, None)"
    by (simp add: Size_def WriteTo_def)
  from c1 fr(2) c3 c4 c5 c6 show ?thesis by blast
qed

lemma ex_evict:
  "EvictOutOfTimeRange 100 50 50 ex_batch =
     (\<lparr>rows = [ex_row 100, (ex_row 10)\<lparr>IsOutOfTimeRange := True\<rparr>,
               (ex_row 1000)\<lparr>IsOutOfTimeRange := True\<rparr>, ex_row 5], rowCount = 3\<rparr>, 2)"
  by (simp add: EvictOutOfTimeRange_def ex_batch_def ex_row_def Len_def evict_cond_def)

theorem EvictOutOfTimeRange_marks_witness:
  "wf_batch ex_batch
   \<and> snd (EvictOutOfTimeRange 100 50 50 ex_batch) = 2
   \<and> map IsOutOfTimeRange (rows (fst (EvictOutOfTimeRange 100 50 50 ex_batch))) = [False, True, True, False]
   \<and> Len (fst (EvictOutOfTimeRange 100 50 50 ex_batch)) = Len ex_batch
   \<and> Size (rows (fst (EvictOutOfTimeRange 100 50 50 ex_batch)) ! 1) = 0"
proof -
  have wf: "wf_batch ex_batch" by (simp add: wf_batch_def ex_batch_def)
  have ev: "EvictOutOfTimeRange 100 50 50 ex_batch
      = (fst (EvictOutOfTimeRange 100 50 50 ex_batch), snd (EvictOutOfTimeRange 100 50 50 ex_batch))"
    by simp
  have len: "Len (fst (EvictOutOfTimeRange 100 50 50 ex_batch)) = Len ex_batch"
    using EvictOutOfTimeRange_marks [OF wf ev, of "\<lambda>w bs. (w @ bs, length bs, None)" "[]"]
    by blast
  have run: "snd (EvictOutOfTimeRange 100 50 50 ex_batch) = 2
      \<and> map IsOutOfTimeRange (rows (fst (EvictOutOfTimeRange 100 50 50 ex_batch))) = [False, True, True, False]
      \<and> Size (rows (fst (EvictOutOfTimeRange 100 50 50 ex_batch)) ! 1) = 0"
    by (simp add: ex_evict ex_row_def Size_def)
  from wf len run show ?thesis by blast
qed

section \<open>Recycled batches\<close>

lemma FromBlock_frame:
  "FromBlock init row block = Inr row' \<Longrightarrow>
   IsOutOfTimeRange row' = IsOutOfTimeRange row \<and> ShardID row' = ShardID row \<and> buffer row' = block"
  by (auto simp: FromBlock_def Let_def split: if_splits)

lemma TryAppend_reused_slot:
  "rowCount br < length (rows br) \<Longrightarrow>
   rows (fst (TryAppend appendFunc br)) = (rows br)[rowCount br := fst (appendFunc (rows br ! rowCount br))]"
  by (auto simp: TryAppend_def Let_def split: prod.splits option.splits)

text \<open>
  Claim C10. A batch taken from the pool is reset by zeroing \<open>rowCount\<close> only: the slots
  keep their contents. \<open>FromBlock\<close> leaves \<open>IsOutOfTimeRange\<close> as it was, and \<open>TryAppend\<close>
  hands the old slot to the builder. So when the first slot of a recycled batch was flagged
  and the builder keeps the flag, the appended row is flagged whatever its timestamp is: its
  \<open>Size\<close> is 0 and \<open>WriteTo\<close> writes nothing.
\<close>

theorem recycled_slot_keeps_flag:
  "NewBrokerBatchRows (Some br) = br\<lparr>rowCount := 0\<rparr>
   \<and> rows (reset br) = rows br
   \<and> (\<forall>row block row'. FromBlock init row block = Inr row' \<longrightarrow>
         IsOutOfTimeRange row' = IsOutOfTimeRange row)
   \<and> (rowCount br < length (rows br) \<longrightarrow>
         rows (fst (TryAppend appendFunc br))
           = (rows br)[rowCount br := fst (appendFunc (rows br ! rowCount br))])
   \<and> (rows br \<noteq> [] \<and> IsOutOfTimeRange (rows br ! 0)
        \<and> (\<forall>row. IsOutOfTimeRange (fst (appendFunc row)) = IsOutOfTimeRange row)
        \<and> snd (appendFunc (rows br ! 0)) = None \<longrightarrow>
         (let (br', err) = TryAppend appendFunc (NewBrokerBatchRows (Some br)) in
            err = None \<and> Len br' = 1 \<and> m (rows br' ! 0) = m (fst (appendFunc (rows br ! 0)))
            \<and> IsOutOfTimeRange (rows br' ! 0) \<and> Size (rows br' ! 0) = 0
            \<and> WriteTo writer_Write (rows br' ! 0) w = (w, 0, None)))"
proof -
  have a: "NewBrokerBatchRows (Some br) = br\<lparr>rowCount := 0\<rparr>"
    by (simp add: NewBrokerBatchRows_def reset_def)
  have b: "rows (reset br) = rows br" by (simp add: reset_def)
  have c: "\<forall>row block row'. FromBlock init row block = Inr row' \<longrightarrow>
         IsOutOfTimeRange row' = IsOutOfTimeRange row"
    using FromBlock_frame by blast
  have d: "rowCount br < length (rows br) \<longrightarrow>
         rows (fst (TryAppend appendFunc br))
           = (rows br)[rowCount br := fst (appendFunc (rows br ! rowCount br))]"
    using TryAppend_reused_slot by blast
  have e: "rows br \<noteq> [] \<and> IsOutOfTimeRange (rows br ! 0)
        \<and> (\<forall>row. IsOutOfTimeRange (fst (appendFunc row)) = IsOutOfTimeRange row)
        \<and> snd (appendFunc (rows br ! 0)) = None \<longrightarrow>
         (let (br', err) = TryAppend appendFunc (NewBrokerBatchRows (Some br)) in
            err = None \<and> Len br' = 1 \<and> m (rows br' ! 0) = m (fst (appendFunc (rows br ! 0)))
            \<and> IsOutOfTimeRange (rows br' ! 0) \<and> Size (rows br' ! 0) = 0
            \<and> WriteTo writer_Write (rows br' ! 0) w = (w, 0, None))"
  proof (intro impI, elim conjE)
    assume ne: "rows br \<noteq> []" and fl: "IsOutOfTimeRange (rows br ! 0)"
      and pres: "\<forall>row. IsOutOfTimeRange (fst (appendFunc row)) = IsOutOfTimeRange row"
      and ok: "snd (appendFunc (rows br ! 0)) = None"
    obtain r e where ap: "appendFunc (rows br ! 0) = (r, e)" by (cases "appendFunc (rows br ! 0)")
    with ok have e: "e = None" by simp
    from pres ap fl have rf: "IsOutOfTimeRange r" by (metis fst_conv)
    from ne have len: "0 < length (rows br)" by simp
    show "let (br', err) = TryAppend appendFunc (NewBrokerBatchRows (Some br)) in
            err = None \<and> Len br' = 1 \<and> m (rows br' ! 0) = m (fst (appendFunc (rows br ! 0)))
            \<and> IsOutOfTimeRange (rows br' ! 0) \<and> Size (rows br' ! 0) = 0
            \<and> WriteTo writer_Write (rows br' ! 0) w = (w, 0, None)"
      using ap e rf len
      by (simp add: a TryAppend_def Let_def Len_def Size_def WriteTo_def)
  qed
  from a b c d e show ?thesis by blast
qed

lemma ex_FromBlock:
  "FromBlock ex_init row ex_block = Inr (row\<lparr>buffer := ex_block, m := \<lparr>Timestamp = 100, Hash = 9\<rparr>\<rparr>)"
  by (simp add: FromBlock_def ex_block_def ex_init_def GetUint32_def Let_def)

theorem recycled_slot_keeps_flag_witness:
  "rows ex_used \<noteq> [] \<and> IsOutOfTimeRange (rows ex_used ! 0)
   \<and> (\<forall>row. IsOutOfTimeRange (fst (fromBlockBuilder ex_init ex_block row)) = IsOutOfTimeRange row)
   \<and> snd (fromBlockBuilder ex_init ex_block (rows ex_used ! 0)) = None
   \<and> (let (br', err) = TryAppend (fromBlockBuilder ex_init ex_block) (NewBrokerBatchRows (Some ex_used)) in
        err = None \<and> Len br' = 1
        \<and> \<not> evict_cond 100 50 50 (rows br' ! 0)
        \<and> IsOutOfTimeRange (rows br' ! 0) \<and> Size (rows br' ! 0) = 0
        \<and> WriteTo (\<lambda>w bs. (w @ bs, length bs, None)) (rows br' ! 0) [] = ([], 0, None))"
proof -
  have h1: "rows ex_used \<noteq> []" by (simp add: ex_used_def)
  have h2: "IsOutOfTimeRange (rows ex_used ! 0)" by (simp add: ex_used_def)
  have h3: "\<forall>row. IsOutOfTimeRange (fst (fromBlockBuilder ex_init ex_block row)) = IsOutOfTimeRange row"
    by (simp add: fromBlockBuilder_def ex_FromBlock)
  have h4: "snd (fromBlockBuilder ex_init ex_block (rows ex_used ! 0)) = None"
    by (simp add: fromBlockBuilder_def ex_FromBlock)
  have mm: "m (fst (fromBlockBuilder ex_init ex_block (rows ex_used ! 0))) = \<lparr>Timestamp = 100, Hash = 9\<rparr>"
    by (simp add: fromBlockBuilder_def ex_FromBlock)
  have ne: "\<And>r. m r = \<lparr>Timestamp = 100, Hash = 9\<rparr> \<Longrightarrow> \<not> evict_cond 100 50 50 r"
    by (simp add: evict_cond_def)
  show ?thesis
    using h1 h2 h3 h4
      recycled_slot_keeps_flag [of ex_used ex_init "fromBlockBuilder ex_init ex_block"
        "\<lambda>w bs. (w @ bs, length bs, None)" "[]"]
    by (auto simp: mm ne split: prod.splits)
qed

section \<open>Shard groups\<close>

lemma slice_split:
  assumes "lo \<le> mid" and "mid \<le> hi"
  shows "subslice s lo mid @ subslice s mid hi = subslice s lo hi"
proof -
  have "hi - lo = (mid - lo) + (hi - mid)" using assms by simp
  then have "take (hi - lo) (drop lo s)
      = take (mid - lo) (drop lo s) @ take (hi - mid) (drop (mid - lo) (drop lo s))"
    by (simp only: take_add)
  moreover have "drop (mid - lo) (drop lo s) = drop mid s" using assms by simp
  ultimately show ?thesis by (simp add: subslice_def)
qed

lemma slice_append_drop:
  assumes "lo \<le> hi"
  shows "subslice s lo hi @ drop hi s = drop lo s"
proof -
  have "drop hi s = drop (hi - lo) (drop lo s)" using assms by simp
  then show ?thesis unfolding subslice_def by (simp only: append_take_drop_id)
qed

lemma slice_nonempty: "lo < hi \<Longrightarrow> hi \<le> length s \<Longrightarrow> subslice s lo hi \<noteq> []"
  by (simp add: subslice_def)

lemma hd_slice: "lo < hi \<Longrightarrow> hi \<le> length s \<Longrightarrow> hd (subslice s lo hi) = s ! lo"
  by (simp add: subslice_def hd_drop_conv_nth)

lemma in_slice_nth:
  assumes "r \<in> set (subslice s lo hi)" and "hi \<le> length s"
  shows "\<exists>i. lo \<le> i \<and> i < hi \<and> r = s ! i"
proof -
  from assms(1) obtain k where k: "k < length (subslice s lo hi)" "r = subslice s lo hi ! k"
    by (auto simp: in_set_conv_nth)
  then have "k < hi - lo" by (simp add: subslice_def)
  moreover from this assms(2) k have "r = s ! (lo + k)" by (simp add: subslice_def)
  ultimately show ?thesis by (intro exI [of _ "lo + k"]) simp
qed

lemma set_slice_subset: "set (subslice s lo hi) \<subseteq> set (drop lo s)"
  by (simp add: subslice_def set_take_subset)

lemma slice_cong:
  assumes "hi \<le> length s" and "hi \<le> length s'"
    and "\<forall>i. lo \<le> i \<and> i < hi \<longrightarrow> s' ! i = s ! i"
  shows "subslice s' lo hi = subslice s lo hi"
proof (rule nth_equalityI)
  show "length (subslice s' lo hi) = length (subslice s lo hi)"
    using assms(1,2) by (simp add: subslice_def)
  fix k assume "k < length (subslice s' lo hi)"
  then have k: "k < hi - lo" by (simp add: subslice_def)
  with assms(1,2) have "subslice s' lo hi ! k = s' ! (lo + k)" "subslice s lo hi ! k = s ! (lo + k)"
    by (simp_all add: subslice_def)
  with k assms(3) show "subslice s' lo hi ! k = subslice s lo hi ! k" by simp
qed

lemma shard_groups_props:
  assumes "groupStart itr \<le> groupEnd itr" and "Len br \<le> length (rows br)"
  shows "concat (map snd (shard_groups br itr)) = subslice (rows br) (groupEnd itr) (Len br)
     \<and> (\<forall>(sid, g) \<in> set (shard_groups br itr).
           g \<noteq> [] \<and> set g \<subseteq> set (subslice (rows br) (groupEnd itr) (Len br))
           \<and> sid = ShardID (hd g) \<and> (\<forall>r \<in> set g. ShardID r = sid))"
  using assms
proof (induction br itr rule: shard_groups.induct)
  case (1 br itr)
  let ?rs = "rows br" and ?e = "groupEnd itr" and ?n = "Len br"
  show ?case
  proof (cases "?e < ?n")
    case False
    then have "HasRowsForNextShard br itr = (False, itr)" by (simp add: HasRowsForNextShard_def)
    then have "shard_groups br itr = []" by (subst shard_groups.simps) simp
    with False show ?thesis by (simp add: subslice_def)
  next
    case True
    let ?sid = "ShardID (?rs ! ?e)"
    let ?e' = "shard_run_end br ?sid ?e"
    let ?itr' = "itr\<lparr>groupShardID := ?sid, groupStart := ?e, groupEnd := ?e'\<rparr>"
    have hn: "HasRowsForNextShard br itr = (True, ?itr')"
      by (rule HasRowsForNextShard_next [OF "1.prems"(1) True])
    have ee': "?e < ?e'" by (rule shard_run_end_step [OF True])
    have e'n: "?e' \<le> ?n" using True by (intro shard_run_end_le) simp
    have e'l: "?e' \<le> length ?rs" using e'n "1.prems"(2) by simp
    have fg: "shard_groups br itr = (?sid, subslice ?rs ?e ?e') # shard_groups br ?itr'"
      by (subst shard_groups.simps) (simp add: hn)
    have ih: "concat (map snd (shard_groups br ?itr')) = subslice ?rs ?e' ?n
       \<and> (\<forall>(sid, g) \<in> set (shard_groups br ?itr').
           g \<noteq> [] \<and> set g \<subseteq> set (subslice ?rs ?e' ?n)
           \<and> sid = ShardID (hd g) \<and> (\<forall>r \<in> set g. ShardID r = sid))"
      using "1.IH" [OF hn [symmetric] refl] "1.prems" ee' by simp
    have split: "subslice ?rs ?e ?e' @ subslice ?rs ?e' ?n = subslice ?rs ?e ?n"
      using ee' e'n by (intro slice_split) simp_all
    have c1: "concat (map snd (shard_groups br itr)) = subslice ?rs ?e ?n"
      using ih split by (simp add: fg)
    have hd_g: "hd (subslice ?rs ?e ?e') = ?rs ! ?e" using ee' e'l by (simp add: hd_slice)
    have g1: "subslice ?rs ?e ?e' \<noteq> []" using ee' e'l by (simp add: slice_nonempty)
    have g2: "\<forall>r \<in> set (subslice ?rs ?e ?e'). ShardID r = ?sid"
    proof
      fix r assume "r \<in> set (subslice ?rs ?e ?e')"
      from in_slice_nth [OF this e'l] obtain i where "?e \<le> i" "i < ?e'" "r = ?rs ! i" by blast
      with shard_run_end_all [of ?e i br ?sid] show "ShardID r = ?sid" by simp
    qed
    have sub1: "set (subslice ?rs ?e ?e') \<subseteq> set (subslice ?rs ?e ?n)"
      using split by (metis Un_upper1 set_append)
    have sub2: "set (subslice ?rs ?e' ?n) \<subseteq> set (subslice ?rs ?e ?n)"
      using split by (metis Un_upper2 set_append)
    have c2: "\<forall>(sid, g) \<in> set (shard_groups br itr).
           g \<noteq> [] \<and> set g \<subseteq> set (subslice ?rs ?e ?n)
           \<and> sid = ShardID (hd g) \<and> (\<forall>r \<in> set g. ShardID r = sid)"
    proof (clarify)
      fix sid g assume "(sid, g) \<in> set (shard_groups br itr)"
      then have "(sid, g) = (?sid, subslice ?rs ?e ?e') \<or> (sid, g) \<in> set (shard_groups br ?itr')"
        by (simp add: fg)
      then show "g \<noteq> [] \<and> set g \<subseteq> set (subslice ?rs ?e ?n)
           \<and> sid = ShardID (hd g) \<and> (\<forall>r \<in> set g. ShardID r = sid)"
      proof
        assume "(sid, g) = (?sid, subslice ?rs ?e ?e')"
        then show ?thesis using g1 g2 hd_g sub1 by simp
      next
        assume "(sid, g) \<in> set (shard_groups br ?itr')"
        with ih sub2 show ?thesis by fastforce
      qed
    qed
    from c1 c2 show ?thesis by blast
  qed
qed

lemma shard_groups_ascending:
  assumes "groupStart itr \<le> groupEnd itr" and "Len br \<le> length (rows br)"
    and "sorted (map ShardID (take (Len br) (rows br)))"
  shows "sorted_wrt (<) (map fst (shard_groups br itr))"
  using assms
proof (induction br itr rule: shard_groups.induct)
  case (1 br itr)
  let ?rs = "rows br" and ?e = "groupEnd itr" and ?n = "Len br"
  have key: "\<And>i j. i \<le> j \<Longrightarrow> j < ?n \<Longrightarrow> ShardID (?rs ! i) \<le> ShardID (?rs ! j)"
  proof -
    fix i j assume ij: "i \<le> j" "j < ?n"
    then have jl: "j < length (take ?n ?rs)" and il: "i < length (take ?n ?rs)"
      using "1.prems"(2) by simp_all
    then have jm: "j < length (map ShardID (take ?n ?rs))" by (simp only: length_map)
    have "map ShardID (take ?n ?rs) ! i \<le> map ShardID (take ?n ?rs) ! j"
      by (rule sorted_nth_mono [OF "1.prems"(3) ij(1) jm])
    moreover have "map ShardID (take ?n ?rs) ! i = ShardID (?rs ! i)"
      using il ij by (simp only: nth_map) (simp only: nth_take le_less_trans)
    moreover have "map ShardID (take ?n ?rs) ! j = ShardID (?rs ! j)"
      using jl ij by (simp only: nth_map) (simp only: nth_take)
    ultimately show "ShardID (?rs ! i) \<le> ShardID (?rs ! j)" by (simp only:)
  qed
  show ?case
  proof (cases "?e < ?n")
    case False
    then have "HasRowsForNextShard br itr = (False, itr)" by (simp add: HasRowsForNextShard_def)
    then have "shard_groups br itr = []" by (subst shard_groups.simps) simp
    then show ?thesis by simp
  next
    case True
    let ?sid = "ShardID (?rs ! ?e)"
    let ?e' = "shard_run_end br ?sid ?e"
    let ?itr' = "itr\<lparr>groupShardID := ?sid, groupStart := ?e, groupEnd := ?e'\<rparr>"
    have hn: "HasRowsForNextShard br itr = (True, ?itr')"
      by (rule HasRowsForNextShard_next [OF "1.prems"(1) True])
    have ee': "?e < ?e'" by (rule shard_run_end_step [OF True])
    have fg: "shard_groups br itr = (?sid, subslice ?rs ?e ?e') # shard_groups br ?itr'"
      by (subst shard_groups.simps) (simp add: hn)
    have ih: "sorted_wrt (<) (map fst (shard_groups br ?itr'))"
      using "1.IH" [OF hn [symmetric] refl] "1.prems" ee' by simp
    have rest: "\<forall>(sid, g) \<in> set (shard_groups br ?itr').
           g \<noteq> [] \<and> set g \<subseteq> set (subslice ?rs ?e' ?n)
           \<and> sid = ShardID (hd g) \<and> (\<forall>r \<in> set g. ShardID r = sid)"
      using shard_groups_props [of ?itr' br] "1.prems"(2) ee' by simp
    have later: "\<forall>sid \<in> set (map fst (shard_groups br ?itr')). ?sid < sid"
    proof
      fix sid assume "sid \<in> set (map fst (shard_groups br ?itr'))"
      then obtain g where g: "(sid, g) \<in> set (shard_groups br ?itr')" by auto
      from bspec [OF rest g] have gne: "g \<noteq> []" and gsub: "set g \<subseteq> set (subslice ?rs ?e' ?n)"
        and sg: "sid = ShardID (hd g)"
        by blast+
      from gne gsub have "hd g \<in> set (subslice ?rs ?e' ?n)" by auto
      from in_slice_nth [OF this "1.prems"(2)] obtain i where i: "?e' \<le> i" "i < ?n" "hd g = ?rs ! i"
        by blast
      then have e'n: "?e' < ?n" by simp
      have "?sid \<le> ShardID (?rs ! ?e')" using key [of ?e ?e'] ee' e'n by simp
      moreover have "ShardID (?rs ! ?e') \<noteq> ?sid" by (rule shard_run_end_stop [OF e'n])
      moreover have "ShardID (?rs ! ?e') \<le> ShardID (?rs ! i)" using key [of ?e' i] i by simp
      ultimately show "?sid < sid" using sg i by simp
    qed
    show ?thesis using ih later by (simp add: fg)
  qed
qed

lemma stamp_loop_frame:
  "rowCount (stamp_loop numOfShards i br) = rowCount br
   \<and> length (rows (stamp_loop numOfShards i br)) = length (rows br)"
proof (induction numOfShards i br rule: stamp_loop.induct)
  case (1 numOfShards i br)
  show ?case
  proof (cases "i < Len br")
    case True
    with "1.IH" show ?thesis by (subst (1 2) stamp_loop.simps) simp
  next
    case False
    then show ?thesis by (subst (1 2) stamp_loop.simps) simp
  qed
qed

lemma stamp_loop_rows:
  "rowCount br \<le> length (rows br) \<Longrightarrow> k < length (rows br) \<Longrightarrow>
   rows (stamp_loop numOfShards i br) ! k =
     (if i \<le> k \<and> k < rowCount br then stamp numOfShards (rows br ! k) else rows br ! k)"
proof (induction numOfShards i br rule: stamp_loop.induct)
  case (1 numOfShards i br)
  show ?case
  proof (cases "i < Len br")
    case True
    with "1.IH" "1.prems" show ?thesis
      by (subst stamp_loop.simps) (auto simp: Len_def stamp_def nth_list_update)
  next
    case False
    with "1.prems" show ?thesis by (subst stamp_loop.simps) (auto simp: Len_def)
  qed
qed

lemma Rows_stamp_loop:
  assumes "wf_batch br"
  shows "Rows (stamp_loop numOfShards 0 br) = map (stamp numOfShards) (Rows br)"
proof (rule nth_equalityI)
  from assms have wf: "rowCount br \<le> length (rows br)" by (simp add: wf_batch_def)
  show "length (Rows (stamp_loop numOfShards 0 br)) = length (map (stamp numOfShards) (Rows br))"
    using stamp_loop_frame [of numOfShards 0 br] by (simp add: Rows_def)
  fix k assume "k < length (Rows (stamp_loop numOfShards 0 br))"
  then have k: "k < rowCount br" "k < length (rows br)"
    using stamp_loop_frame [of numOfShards 0 br] wf by (simp_all add: Rows_def)
  then show "Rows (stamp_loop numOfShards 0 br) ! k = map (stamp numOfShards) (Rows br) ! k"
    using stamp_loop_rows [OF wf k(2), of numOfShards 0] stamp_loop_frame [of numOfShards 0 br]
    by (simp add: Rows_def)
qed

lemma Less_key: "Less = (\<lambda>a b. ShardID a < ShardID b)"
  by (rule ext)+ (simp add: Less_def)

lemma sort_contract_Less:
  assumes "sort_contract srt"
  shows "mset (srt Less xs) = mset xs" and "sorted (map ShardID (srt Less xs))"
  using assms [unfolded sort_contract_def, rule_format, of ShardID xs]
  unfolding Less_key by simp_all

lemma NewShardGroupIterator_facts:
  assumes wf: "wf_batch br" and srt: "sort_contract srt"
    and new: "NewShardGroupIterator srt numOfShards br = (br', itr)"
  shows "rowCount br' = rowCount br" and "wf_batch br'"
    and "Rows br' = srt Less (map (stamp numOfShards) (Rows br))"
    and "groupEnd itr = 0" and "groupStart itr = 0" and "groupShardID itr = - 1"
proof -
  let ?b1 = "stamp_loop numOfShards 0 br"
  from wf have wf': "rowCount br \<le> length (rows br)" by (simp add: wf_batch_def)
  have fr: "rowCount ?b1 = rowCount br" "length (rows ?b1) = length (rows br)"
    using stamp_loop_frame [of numOfShards 0 br] by simp_all
  have r1: "take (Len ?b1) (rows ?b1) = map (stamp numOfShards) (Rows br)"
    using Rows_stamp_loop [OF wf, of numOfShards] by (simp add: Rows_def Len_def)
  from new have br': "br' = ?b1\<lparr>rows := srt Less (take (Len ?b1) (rows ?b1)) @ drop (Len ?b1) (rows ?b1)\<rparr>"
    and itr: "itr = \<lparr>groupEnd = 0, groupStart = 0, groupShardID = - 1\<rparr>"
    by (simp_all add: NewShardGroupIterator_def Reset_def)
  have len: "length (srt Less (take (Len ?b1) (rows ?b1))) = rowCount br"
  proof -
    have "length (srt Less (take (Len ?b1) (rows ?b1))) = length (take (Len ?b1) (rows ?b1))"
      using sort_contract_Less(1) [OF srt, of "take (Len ?b1) (rows ?b1)"] by (metis size_mset)
    then show ?thesis using fr wf' by (simp add: Len_def)
  qed
  show "rowCount br' = rowCount br" using br' fr by simp
  show "wf_batch br'" using br' fr len by (simp add: wf_batch_def)
  show "Rows br' = srt Less (map (stamp numOfShards) (Rows br))"
    using br' fr len r1 by (simp add: Rows_def)
  show "groupEnd itr = 0" "groupStart itr = 0" "groupShardID itr = - 1" using itr by simp_all
qed

lemma insort_by_key: "insort_by (\<lambda>a b. key a < key b) x ys = insort_key key x ys"
  for key :: "BrokerRow \<Rightarrow> int"
  by (induction ys) auto

lemma insertion_sorter_key: "insertion_sorter (\<lambda>a b. key a < key b) xs = sort_key key xs"
  for key :: "BrokerRow \<Rightarrow> int"
  by (induction xs) (simp_all add: insertion_sorter_def insort_by_key sort_key_def)

lemma sort_contract_insertion_sorter: "sort_contract insertion_sorter"
  by (simp add: sort_contract_def insertion_sorter_key)


lemma ex_stamp: "stamp_loop 4 0 ex_shard_batch =
    \<lparr>rows = [(ex_hash_row 2)\<lparr>ShardID := 3\<rparr>, (ex_hash_row 4)\<lparr>ShardID := 1\<rparr>,
             (ex_hash_row 1)\<lparr>ShardID := 0\<rparr>, ex_hash_row 9], rowCount = 3\<rparr>"
  by (simp add: stamp_loop.simps ex_shard_batch_def Len_def ex_hash_row_def ex_jump_values)

lemma ex_new: "NewShardGroupIterator insertion_sorter 4 ex_shard_batch =
    (\<lparr>rows = [(ex_hash_row 1)\<lparr>ShardID := 0\<rparr>, (ex_hash_row 4)\<lparr>ShardID := 1\<rparr>,
             (ex_hash_row 2)\<lparr>ShardID := 3\<rparr>, ex_hash_row 9], rowCount = 3\<rparr>,
     \<lparr>groupEnd = 0, groupStart = 0, groupShardID = - 1\<rparr>)"
  by (simp add: NewShardGroupIterator_def Reset_def ex_stamp Len_def insertion_sorter_def Less_def
        ex_hash_row_def)

lemma ex_shard_groups:
  "shard_groups \<lparr>rows = [(ex_hash_row 1)\<lparr>ShardID := 0\<rparr>, (ex_hash_row 4)\<lparr>ShardID := 1\<rparr>,
             (ex_hash_row 2)\<lparr>ShardID := 3\<rparr>, ex_hash_row 9], rowCount = 3\<rparr>
     \<lparr>groupEnd = 0, groupStart = 0, groupShardID = - 1\<rparr>
   = [(0, [(ex_hash_row 1)\<lparr>ShardID := 0\<rparr>]), (1, [(ex_hash_row 4)\<lparr>ShardID := 1\<rparr>]),
      (3, [(ex_hash_row 2)\<lparr>ShardID := 3\<rparr>])]"
  apply (subst shard_groups.simps)
  apply (simp add: HasRowsForNextShard_def Len_def shard_run_end.simps ex_hash_row_def subslice_def)
  apply (subst shard_groups.simps)
  apply (simp add: HasRowsForNextShard_def Len_def shard_run_end.simps ex_hash_row_def subslice_def)
  apply (subst shard_groups.simps)
  apply (simp add: HasRowsForNextShard_def Len_def shard_run_end.simps ex_hash_row_def subslice_def)
  apply (subst shard_groups.simps)
  apply (simp add: HasRowsForNextShard_def Len_def shard_run_end.simps ex_hash_row_def subslice_def)
  done

lemma sum_list_group_lengths:
  "sum_list (map (\<lambda>(sid, g). length g) gs) = length (concat (map snd gs))"
  by (induction gs) auto

text \<open>
  Claim C2. After \<open>NewShardGroupIterator\<close> on a batch (for any number of shards), the
  groups that \<open>HasRowsForNextShard\<close> selects one after the other are slices
  \<open>rows[groupStart:groupEnd]\<close> that concatenate to the whole sorted batch, which holds the
  stamped rows of the batch, each once; the sizes sum to \<open>Len\<close>; every group is non-empty
  and its rows have the group's shard id; the shard ids of successive groups increase
  strictly, so each group is the maximal run of its shard id; an empty batch has no group.
\<close>

theorem shard_iteration_visits_each_row_once:
  assumes wf: "wf_batch br" and srt: "sort_contract srt"
    and new: "NewShardGroupIterator srt numOfShards br = (br', itr)"
  shows "concat (map snd (shard_groups br' itr)) = Rows br'
     \<and> mset (Rows br') = mset (map (stamp numOfShards) (Rows br))
     \<and> sum_list (map (\<lambda>(sid, g). length g) (shard_groups br' itr)) = Len br
     \<and> (\<forall>(sid, g) \<in> set (shard_groups br' itr). g \<noteq> [] \<and> (\<forall>r \<in> set g. ShardID r = sid))
     \<and> sorted_wrt (<) (map fst (shard_groups br' itr))
     \<and> (Len br = 0 \<longrightarrow> shard_groups br' itr = [])"
proof -
  note f = NewShardGroupIterator_facts [OF wf srt new]
  from f(2) have wf': "Len br' \<le> length (rows br')" by (simp add: wf_batch_def Len_def)
  have se: "groupStart itr \<le> groupEnd itr" using f by simp
  note p = shard_groups_props [OF se wf']
  have sl: "subslice (rows br') (groupEnd itr) (Len br') = Rows br'"
    using f(4) by (simp add: subslice_def Rows_def Len_def)
  have c1: "concat (map snd (shard_groups br' itr)) = Rows br'" using p sl by simp
  have c2: "mset (Rows br') = mset (map (stamp numOfShards) (Rows br))"
    using f(3) sort_contract_Less(1) [OF srt] by simp
  have "length (Rows br') = Len br"
    using f(1) wf' by (simp add: Rows_def Len_def)
  then have c3: "sum_list (map (\<lambda>(sid, g). length g) (shard_groups br' itr)) = Len br"
    using c1 by (simp only: sum_list_group_lengths)
  have c4: "\<forall>(sid, g) \<in> set (shard_groups br' itr). g \<noteq> [] \<and> (\<forall>r \<in> set g. ShardID r = sid)"
    using p by fastforce
  have so: "sorted (map ShardID (take (Len br') (rows br')))"
    using f(3) sort_contract_Less(2) [OF srt, of "map (stamp numOfShards) (Rows br)"]
    by (simp add: Rows_def Len_def)
  have c5: "sorted_wrt (<) (map fst (shard_groups br' itr))"
    by (rule shard_groups_ascending [OF se wf' so])
  have c6: "Len br = 0 \<longrightarrow> shard_groups br' itr = []"
  proof
    assume "Len br = 0"
    then have "Len br' = 0" using f(1) by (simp add: Len_def)
    then have "HasRowsForNextShard br' itr = (False, itr)" by (simp add: HasRowsForNextShard_def)
    then show "shard_groups br' itr = []" by (subst shard_groups.simps) simp
  qed
  from c1 c2 c3 c4 c5 c6 show ?thesis by blast
qed

theorem shard_iteration_visits_each_row_once_witness:
  "wf_batch ex_shard_batch \<and> sort_contract insertion_sorter
   \<and> (\<exists>br' itr. NewShardGroupIterator insertion_sorter 4 ex_shard_batch = (br', itr)
         \<and> shard_groups br' itr
              = [(0, [(ex_hash_row 1)\<lparr>ShardID := 0\<rparr>]), (1, [(ex_hash_row 4)\<lparr>ShardID := 1\<rparr>]),
                 (3, [(ex_hash_row 2)\<lparr>ShardID := 3\<rparr>])]
         \<and> concat (map snd (shard_groups br' itr)) = Rows br'
         \<and> sum_list (map (\<lambda>(sid, g). length g) (shard_groups br' itr)) = 3)"
proof -
  have wf: "wf_batch ex_shard_batch" by (simp add: wf_batch_def ex_shard_batch_def)
  have len: "Len ex_shard_batch = 3" by (simp add: Len_def ex_shard_batch_def)
  from shard_iteration_visits_each_row_once [OF wf sort_contract_insertion_sorter ex_new] len
  have "concat (map snd (shard_groups
           \<lparr>rows = [(ex_hash_row 1)\<lparr>ShardID := 0\<rparr>, (ex_hash_row 4)\<lparr>ShardID := 1\<rparr>,
             (ex_hash_row 2)\<lparr>ShardID := 3\<rparr>, ex_hash_row 9], rowCount = 3\<rparr>
           \<lparr>groupEnd = 0, groupStart = 0, groupShardID = - 1\<rparr>))
        = Rows \<lparr>rows = [(ex_hash_row 1)\<lparr>ShardID := 0\<rparr>, (ex_hash_row 4)\<lparr>ShardID := 1\<rparr>,
             (ex_hash_row 2)\<lparr>ShardID := 3\<rparr>, ex_hash_row 9], rowCount = 3\<rparr>
      \<and> sum_list (map (\<lambda>(sid, g). length g) (shard_groups
           \<lparr>rows = [(ex_hash_row 1)\<lparr>ShardID := 0\<rparr>, (ex_hash_row 4)\<lparr>ShardID := 1\<rparr>,
             (ex_hash_row 2)\<lparr>ShardID := 3\<rparr>, ex_hash_row 9], rowCount = 3\<rparr>
           \<lparr>groupEnd = 0, groupStart = 0, groupShardID = - 1\<rparr>)) = 3"
    by simp
  with wf sort_contract_insertion_sorter ex_new ex_shard_groups show ?thesis by simp
qed

text \<open>
  Claim C3. After \<open>NewShardGroupIterator(N)\<close> with \<open>N \<ge> 1\<close>, the shard id of every
  row of the batch is the jump consistent hash of the row's metric hash with \<open>N\<close> buckets,
  a function of the hash and \<open>N\<close> alone, and lies in \<open>[0, N)\<close>; the metrics of the batch
  are the same as before; with \<open>N = 1\<close> every row gets shard id 0.
\<close>

theorem NewShardGroupIterator_stamps_jump_hash:
  assumes wf: "wf_batch br" and srt: "sort_contract srt"
    and new: "NewShardGroupIterator srt numOfShards br = (br', itr)"
    and n1: "1 \<le> sint numOfShards"
  shows "(\<forall>r \<in> set (Rows br').
            ShardID r = sint (jump_Hash (Hash (m r)) numOfShards)
            \<and> 0 \<le> ShardID r \<and> ShardID r < sint numOfShards)
     \<and> mset (map m (Rows br')) = mset (map m (Rows br))
     \<and> (numOfShards = 1 \<longrightarrow> (\<forall>r \<in> set (Rows br'). ShardID r = 0))"
proof -
  note f = NewShardGroupIterator_facts [OF wf srt new]
  have ms: "mset (Rows br') = mset (map (stamp numOfShards) (Rows br))"
    using f(3) sort_contract_Less(1) [OF srt] by simp
  from mset_eq_setD [OF ms] have st: "set (Rows br') = stamp numOfShards ` set (Rows br)"
    by simp
  have c1: "\<forall>r \<in> set (Rows br').
            ShardID r = sint (jump_Hash (Hash (m r)) numOfShards)
            \<and> 0 \<le> ShardID r \<and> ShardID r < sint numOfShards"
  proof
    fix r assume "r \<in> set (Rows br')"
    with st obtain r0 where "r = stamp numOfShards r0" by auto
    then have "ShardID r = sint (jump_Hash (Hash (m r)) numOfShards)" by (simp add: stamp_def)
    with jump_Hash_range [OF n1, of "Hash (m r)"]
    show "ShardID r = sint (jump_Hash (Hash (m r)) numOfShards)
            \<and> 0 \<le> ShardID r \<and> ShardID r < sint numOfShards" by simp
  qed
  have "mset (map m (Rows br')) = image_mset m (mset (Rows br'))" by simp
  also have "\<dots> = image_mset m (mset (map (stamp numOfShards) (Rows br)))" by (simp only: ms)
  also have "\<dots> = mset (map m (map (stamp numOfShards) (Rows br)))" by (simp only: mset_map)
  also have "map m (map (stamp numOfShards) (Rows br)) = map m (Rows br)"
    by (simp add: stamp_def)
  finally have c2: "mset (map m (Rows br')) = mset (map m (Rows br))" .
  have c3: "numOfShards = 1 \<longrightarrow> (\<forall>r \<in> set (Rows br'). ShardID r = 0)"
    using c1 by (auto simp: jump_Hash_one_bucket)
  from c1 c2 c3 show ?thesis by blast
qed

theorem NewShardGroupIterator_stamps_jump_hash_witness:
  "wf_batch ex_shard_batch \<and> sort_contract insertion_sorter \<and> 1 \<le> sint (4 :: 32 word)
   \<and> map ShardID (Rows (fst (NewShardGroupIterator insertion_sorter 4 ex_shard_batch))) = [0, 1, 3]
   \<and> map (\<lambda>r. sint (jump_Hash (Hash (m r)) 4))
         (Rows (fst (NewShardGroupIterator insertion_sorter 4 ex_shard_batch))) = [0, 1, 3]"
proof -
  have wf: "wf_batch ex_shard_batch" by (simp add: wf_batch_def ex_shard_batch_def)
  have n1: "1 \<le> sint (4 :: 32 word)" by simp
  let ?B = "\<lparr>rows = [(ex_hash_row 1)\<lparr>ShardID := 0\<rparr>, (ex_hash_row 4)\<lparr>ShardID := 1\<rparr>,
             (ex_hash_row 2)\<lparr>ShardID := 3\<rparr>, ex_hash_row 9], rowCount = 3\<rparr>"
  from NewShardGroupIterator_stamps_jump_hash [OF wf sort_contract_insertion_sorter ex_new n1]
  have "\<forall>r \<in> set (Rows ?B).
          ShardID r = sint (jump_Hash (Hash (m r)) 4) \<and> 0 \<le> ShardID r
          \<and> ShardID r < sint (4 :: 32 word)"
    by (rule conjunct1)
  then have "map (\<lambda>r. sint (jump_Hash (Hash (m r)) 4)) (Rows ?B) = map ShardID (Rows ?B)"
    by (intro map_cong) simp_all
  moreover have "map ShardID (Rows ?B) = [0, 1, 3]"
    by (simp add: Rows_def)
  ultimately have "map ShardID (Rows ?B) = [0, 1, 3]
      \<and> map (\<lambda>r. sint (jump_Hash (Hash (m r)) 4)) (Rows ?B) = [0, 1, 3]"
    by (simp only:)
  then show ?thesis unfolding ex_new fst_conv
    using wf sort_contract_insertion_sorter n1 by blast
qed

section \<open>Family groups\<close>

lemma timeRange_of_familyTime:
  "timeRangeOfTimestamp calc t
     = \<lparr>Start = familyTimeOfTimestamp calc t,
        End = CalcFamilyEndTime calc (familyTimeOfTimestamp calc t)\<rparr>"
  by (simp add: timeRangeOfTimestamp_def familyTimeOfTimestamp_def Let_def)

lemma HasNextFamily_sorted_mode:
  assumes ns: "\<not> sameFamily itr" and se: "groupStart_f itr \<le> groupEnd_f itr"
    and lt: "groupEnd_f itr < length (rows_f itr)"
    and own: "Contains (timeRangeOfTimestamp (intervalCalc itr) (Timestamp (m (rows_f itr ! groupEnd_f itr))))
                (Timestamp (m (rows_f itr ! groupEnd_f itr)))"
  shows "HasNextFamily itr =
           (True, itr\<lparr>groupStart_f := groupEnd_f itr,
                      groupFamilyTime := familyTimeOfTimestamp (intervalCalc itr)
                                           (Timestamp (m (rows_f itr ! groupEnd_f itr))),
                      groupEnd_f := family_run_end (rows_f itr)
                         (timeRangeOfTimestamp (intervalCalc itr) (Timestamp (m (rows_f itr ! groupEnd_f itr))))
                         (groupEnd_f itr)\<rparr>)"
  using ns se lt family_run_end_step [OF lt own]
  by (simp add: HasNextFamily_def Let_def)

lemma family_groups_sorted_mode:
  assumes "\<not> sameFamily itr" and "groupStart_f itr \<le> groupEnd_f itr"
    and "\<forall>r \<in> set (rows_f itr).
           Contains (timeRangeOfTimestamp (intervalCalc itr) (Timestamp (m r))) (Timestamp (m r))"
  shows "concat (map snd (family_groups itr)) = drop (groupEnd_f itr) (rows_f itr)
     \<and> (\<forall>(ft, g) \<in> set (family_groups itr).
           g \<noteq> [] \<and> set g \<subseteq> set (drop (groupEnd_f itr) (rows_f itr))
           \<and> ft = familyTimeOfTimestamp (intervalCalc itr) (Timestamp (m (hd g)))
           \<and> (\<forall>r \<in> set g. Contains (timeRangeOfTimestamp (intervalCalc itr) (Timestamp (m (hd g))))
                               (Timestamp (m r))))"
  using assms
proof (induction itr rule: family_groups.induct)
  case (1 itr)
  let ?rs = "rows_f itr" and ?e = "groupEnd_f itr" and ?calc = "intervalCalc itr"
  show ?case
  proof (cases "?e < length ?rs")
    case False
    then have "HasNextFamily itr = (False, itr)" by (simp add: HasNextFamily_def)
    then have "family_groups itr = []" by (subst family_groups.simps) simp
    with False show ?thesis by simp
  next
    case True
    let ?a = "?rs ! ?e"
    let ?tr = "timeRangeOfTimestamp ?calc (Timestamp (m ?a))"
    let ?e' = "family_run_end ?rs ?tr ?e"
    let ?itr' = "itr\<lparr>groupStart_f := ?e,
                      groupFamilyTime := familyTimeOfTimestamp ?calc (Timestamp (m ?a)),
                      groupEnd_f := ?e'\<rparr>"
    have own_a: "Contains ?tr (Timestamp (m ?a))" using "1.prems"(3) True by simp
    have hn: "HasNextFamily itr = (True, ?itr')"
      by (rule HasNextFamily_sorted_mode [OF "1.prems"(1,2) True own_a])
    have ee': "?e < ?e'" by (rule family_run_end_step [OF True own_a])
    have e'l: "?e' \<le> length ?rs" using True by (intro family_run_end_le) simp
    have fg: "family_groups itr = NextFamily ?itr' # family_groups ?itr'"
      by (subst family_groups.simps) (simp add: hn)
    have nf: "NextFamily ?itr' = (familyTimeOfTimestamp ?calc (Timestamp (m ?a)), subslice ?rs ?e ?e')"
      by (simp add: NextFamily_def)
    have ih: "concat (map snd (family_groups ?itr')) = drop ?e' ?rs
       \<and> (\<forall>(ft, g) \<in> set (family_groups ?itr').
           g \<noteq> [] \<and> set g \<subseteq> set (drop ?e' ?rs)
           \<and> ft = familyTimeOfTimestamp ?calc (Timestamp (m (hd g)))
           \<and> (\<forall>r \<in> set g. Contains (timeRangeOfTimestamp ?calc (Timestamp (m (hd g))))
                               (Timestamp (m r))))"
      using "1.IH" [OF hn [symmetric] refl] "1.prems" ee' by simp
    have c1: "concat (map snd (family_groups itr)) = drop ?e ?rs"
      using ih ee' by (simp add: fg nf slice_append_drop)
    have hd_g: "hd (subslice ?rs ?e ?e') = ?a" using ee' e'l by (simp add: hd_slice)
    have g1: "subslice ?rs ?e ?e' \<noteq> []" using ee' e'l by (simp add: slice_nonempty)
    have g2: "\<forall>r \<in> set (subslice ?rs ?e ?e'). Contains ?tr (Timestamp (m r))"
    proof
      fix r assume "r \<in> set (subslice ?rs ?e ?e')"
      from in_slice_nth [OF this e'l] obtain i where "?e \<le> i" "i < ?e'" "r = ?rs ! i" by blast
      with family_run_end_all [of ?e i ?rs ?tr] show "Contains ?tr (Timestamp (m r))" by simp
    qed
    have sub: "set (drop ?e' ?rs) \<subseteq> set (drop ?e ?rs)"
      using ee' by (simp add: set_drop_subset_set_drop)
    have c2: "\<forall>(ft, g) \<in> set (family_groups itr).
           g \<noteq> [] \<and> set g \<subseteq> set (drop ?e ?rs)
           \<and> ft = familyTimeOfTimestamp ?calc (Timestamp (m (hd g)))
           \<and> (\<forall>r \<in> set g. Contains (timeRangeOfTimestamp ?calc (Timestamp (m (hd g))))
                               (Timestamp (m r)))"
    proof (clarify)
      fix ft g assume "(ft, g) \<in> set (family_groups itr)"
      then have "(ft, g) = (familyTimeOfTimestamp ?calc (Timestamp (m ?a)), subslice ?rs ?e ?e')
                 \<or> (ft, g) \<in> set (family_groups ?itr')"
        by (simp add: fg nf)
      then show "g \<noteq> [] \<and> set g \<subseteq> set (drop ?e ?rs)
           \<and> ft = familyTimeOfTimestamp ?calc (Timestamp (m (hd g)))
           \<and> (\<forall>r \<in> set g. Contains (timeRangeOfTimestamp ?calc (Timestamp (m (hd g))))
                               (Timestamp (m r)))"
      proof
        assume "(ft, g) = (familyTimeOfTimestamp ?calc (Timestamp (m ?a)), subslice ?rs ?e ?e')"
        then show ?thesis using g1 g2 hd_g set_slice_subset [of ?rs ?e ?e'] by simp
      next
        assume "(ft, g) \<in> set (family_groups ?itr')"
        with ih sub show ?thesis by fastforce
      qed
    qed
    from c1 c2 show ?thesis by blast
  qed
qed

lemma next_family_later:
  assumes fits: "calculator_fits calc rs" and a: "a \<in> set rs" and b: "b \<in> set rs"
    and le: "sint (Timestamp (m a)) \<le> sint (Timestamp (m b))"
    and out: "\<not> Contains (timeRangeOfTimestamp calc (Timestamp (m a))) (Timestamp (m b))"
  shows "sint (familyTimeOfTimestamp calc (Timestamp (m a)))
           < sint (familyTimeOfTimestamp calc (Timestamp (m b)))"
proof -
  from fits a b le have mono: "sint (familyTimeOfTimestamp calc (Timestamp (m a)))
           \<le> sint (familyTimeOfTimestamp calc (Timestamp (m b)))"
    by (simp add: calculator_fits_def)
  have "familyTimeOfTimestamp calc (Timestamp (m a)) \<noteq> familyTimeOfTimestamp calc (Timestamp (m b))"
  proof
    assume eq: "familyTimeOfTimestamp calc (Timestamp (m a)) = familyTimeOfTimestamp calc (Timestamp (m b))"
    then have "timeRangeOfTimestamp calc (Timestamp (m a)) = timeRangeOfTimestamp calc (Timestamp (m b))"
      by (simp add: timeRange_of_familyTime)
    moreover from fits b have "Contains (timeRangeOfTimestamp calc (Timestamp (m b))) (Timestamp (m b))"
      by (simp add: calculator_fits_def)
    ultimately show False using out by simp
  qed
  then have "sint (familyTimeOfTimestamp calc (Timestamp (m a)))
           \<noteq> sint (familyTimeOfTimestamp calc (Timestamp (m b)))"
    by (auto dest: signed_word_eqI)
  with mono show ?thesis by simp
qed

lemma family_groups_ascending:
  assumes "\<not> sameFamily itr" and "groupStart_f itr \<le> groupEnd_f itr"
    and "calculator_fits (intervalCalc itr) (rows_f itr)"
    and "sorted (map (\<lambda>r. sint (Timestamp (m r))) (rows_f itr))"
  shows "sorted_wrt (\<lambda>x y. sint x < sint y) (map fst (family_groups itr))"
  using assms
proof (induction itr rule: family_groups.induct)
  case (1 itr)
  let ?rs = "rows_f itr" and ?e = "groupEnd_f itr" and ?calc = "intervalCalc itr"
  have own: "\<forall>r \<in> set ?rs. Contains (timeRangeOfTimestamp ?calc (Timestamp (m r))) (Timestamp (m r))"
    using "1.prems"(3) by (simp add: calculator_fits_def)
  show ?case
  proof (cases "?e < length ?rs")
    case False
    then have "HasNextFamily itr = (False, itr)" by (simp add: HasNextFamily_def)
    then have "family_groups itr = []" by (subst family_groups.simps) simp
    then show ?thesis by simp
  next
    case True
    let ?a = "?rs ! ?e"
    let ?tr = "timeRangeOfTimestamp ?calc (Timestamp (m ?a))"
    let ?e' = "family_run_end ?rs ?tr ?e"
    let ?itr' = "itr\<lparr>groupStart_f := ?e,
                      groupFamilyTime := familyTimeOfTimestamp ?calc (Timestamp (m ?a)),
                      groupEnd_f := ?e'\<rparr>"
    have own_a: "Contains ?tr (Timestamp (m ?a))" using own True by simp
    have hn: "HasNextFamily itr = (True, ?itr')"
      by (rule HasNextFamily_sorted_mode [OF "1.prems"(1,2) True own_a])
    have ee': "?e < ?e'" by (rule family_run_end_step [OF True own_a])
    have fg: "family_groups itr = NextFamily ?itr' # family_groups ?itr'"
      by (subst family_groups.simps) (simp add: hn)
    have ih: "sorted_wrt (\<lambda>x y. sint x < sint y) (map fst (family_groups ?itr'))"
      using "1.IH" [OF hn [symmetric] refl] "1.prems" ee' by simp
    have rest: "concat (map snd (family_groups ?itr')) = drop ?e' ?rs
       \<and> (\<forall>(ft, g) \<in> set (family_groups ?itr').
           g \<noteq> [] \<and> set g \<subseteq> set (drop ?e' ?rs)
           \<and> ft = familyTimeOfTimestamp ?calc (Timestamp (m (hd g)))
           \<and> (\<forall>r \<in> set g. Contains (timeRangeOfTimestamp ?calc (Timestamp (m (hd g))))
                               (Timestamp (m r))))"
      using family_groups_sorted_mode [of ?itr'] "1.prems"(1) own ee' by simp
    have later: "\<forall>ft \<in> set (map fst (family_groups ?itr')).
                   sint (familyTimeOfTimestamp ?calc (Timestamp (m ?a))) < sint ft"
    proof
      fix ft assume "ft \<in> set (map fst (family_groups ?itr'))"
      then obtain g where g: "(ft, g) \<in> set (family_groups ?itr')" by auto
      with rest have gne: "g \<noteq> []" and gsub: "set g \<subseteq> set (drop ?e' ?rs)"
        and ftg: "ft = familyTimeOfTimestamp ?calc (Timestamp (m (hd g)))"
        by auto
      from gne gsub have "hd g \<in> set (drop ?e' ?rs)" by auto
      then obtain k where k: "k < length ?rs - ?e'" "hd g = ?rs ! (?e' + k)"
        by (auto simp: in_set_conv_nth)
      then have e'l: "?e' < length ?rs" by simp
      let ?b = "?rs ! ?e'"
      have a_in: "?a \<in> set ?rs" using True by simp
      have b_in: "?b \<in> set ?rs" using e'l by simp
      have r_in: "hd g \<in> set ?rs" using k by simp
      have ab: "sint (Timestamp (m ?a)) \<le> sint (Timestamp (m ?b))"
        using sorted_nth_mono [OF "1.prems"(4), of ?e ?e'] ee' e'l by simp
      have br: "sint (Timestamp (m ?b)) \<le> sint (Timestamp (m (hd g)))"
        using sorted_nth_mono [OF "1.prems"(4), of ?e' "?e' + k"] k by simp
      have out: "\<not> Contains ?tr (Timestamp (m ?b))" by (rule family_run_end_stop [OF e'l])
      have "sint (familyTimeOfTimestamp ?calc (Timestamp (m ?a)))
              < sint (familyTimeOfTimestamp ?calc (Timestamp (m ?b)))"
        by (rule next_family_later [OF "1.prems"(3) a_in b_in ab out])
      also have "\<dots> \<le> sint (familyTimeOfTimestamp ?calc (Timestamp (m (hd g))))"
        using "1.prems"(3) b_in r_in br by (simp add: calculator_fits_def)
      finally show "sint (familyTimeOfTimestamp ?calc (Timestamp (m ?a))) < sint ft"
        by (simp add: ftg)
    qed
    show ?thesis using ih later by (simp add: fg NextFamily_def)
  qed
qed

lemma same_family_from_all:
  "same_family_from rs timeRange i \<Longrightarrow> i \<le> k \<Longrightarrow> k < length rs \<Longrightarrow>
   Contains timeRange (Timestamp (m (rs ! k)))"
proof (induction rs timeRange i rule: same_family_from.induct)
  case (1 rs timeRange i)
  from "1.prems" have il: "i < length rs" by simp
  from "1.prems"(1) il have c: "Contains timeRange (Timestamp (m (rs ! i)))"
    and nxt: "same_family_from rs timeRange (i + 1)"
    by (subst (asm) same_family_from.simps, simp split: if_splits)+
  show ?case
  proof (cases "k = i")
    case True with c show ?thesis by simp
  next
    case False
    with "1.IH" [OF il _ nxt] c "1.prems" show ?thesis by simp
  qed
qed

lemma family_groups_same_mode:
  assumes same: "sameFamily itr" and z: "groupEnd_f itr = 0" "groupStart_f itr = 0"
  shows "family_groups itr =
           (if rows_f itr = [] then [] else [(groupFamilyTime itr, rows_f itr)])"
proof (cases "rows_f itr = []")
  case True
  then have "HasNextFamily itr = (False, itr)" using z by (simp add: HasNextFamily_def)
  then have "family_groups itr = []" by (subst family_groups.simps) simp
  with True show ?thesis by simp
next
  case False
  let ?itr' = "itr\<lparr>groupEnd_f := length (rows_f itr), groupStart_f := 0\<rparr>"
  have hn: "HasNextFamily itr = (True, ?itr')"
    using False same z by (simp add: HasNextFamily_def)
  have "HasNextFamily ?itr' = (False, ?itr')" by (simp add: HasNextFamily_def)
  then have e: "family_groups ?itr' = []" by (subst family_groups.simps) simp
  have "family_groups itr = [NextFamily ?itr']"
    by (subst family_groups.simps) (simp add: hn e)
  with False show ?thesis by (simp add: NextFamily_def subslice_def)
qed

lemma reset_f_fields:
  "groupEnd_f (reset_f srt itr0 S calc) = 0"
  "groupStart_f (reset_f srt itr0 S calc) = 0"
  "intervalCalc (reset_f srt itr0 S calc) = calc"
  "sameFamily (reset_f srt itr0 S calc) = one_family calc S"
  "rows_f (reset_f srt itr0 S calc) = (if one_family calc S then S else srt Less_f S)"
  "groupFamilyTime (reset_f srt itr0 S calc)
     = (if S = [] then 0 else familyTimeOfTimestamp calc (Timestamp (m (S ! 0))))"
  by (auto simp: reset_f_def isSameFamily_def one_family_def Let_def split: prod.splits)

lemma Less_f_key: "Less_f = (\<lambda>a b. sint (Timestamp (m a)) < sint (Timestamp (m b)))"
  by (rule ext)+ (simp add: Less_f_def)

lemma sort_contract_Less_f:
  assumes "sort_contract srt"
  shows "mset (srt Less_f xs) = mset xs"
    and "sorted (map (\<lambda>r. sint (Timestamp (m r))) (srt Less_f xs))"
  using assms [unfolded sort_contract_def, rule_format, of "\<lambda>r. sint (Timestamp (m r))" xs]
  unfolding Less_f_key by simp_all

lemma calculator_fits_mset:
  assumes "mset xs = mset ys"
  shows "calculator_fits calc xs = calculator_fits calc ys"
proof -
  from assms have "set xs = set ys" by (rule mset_eq_setD)
  then show ?thesis by (simp add: calculator_fits_def)
qed

lemma reset_f_groups:
  assumes srt: "sort_contract srt" and fits: "calculator_fits calc S"
  shows "mset (concat (map snd (family_groups (reset_f srt itr0 S calc)))) = mset S
     \<and> (\<forall>(ft, g) \<in> set (family_groups (reset_f srt itr0 S calc)).
           g \<noteq> [] \<and> ft = familyTimeOfTimestamp calc (Timestamp (m (hd g)))
           \<and> (\<forall>r \<in> set g. Contains \<lparr>Start = ft, End = CalcFamilyEndTime calc ft\<rparr> (Timestamp (m r))))
     \<and> sorted_wrt (\<lambda>x y. sint x < sint y) (map fst (family_groups (reset_f srt itr0 S calc)))"
proof (cases "one_family calc S")
  case True
  let ?itr = "reset_f srt itr0 S calc"
  have fg: "family_groups ?itr = (if S = [] then [] else [(groupFamilyTime ?itr, S)])"
    using family_groups_same_mode [of ?itr] True by (simp add: reset_f_fields)
  show ?thesis
  proof (cases "S = []")
    case True
    with fg show ?thesis by simp
  next
    case False
    then have l: "0 < length S" by simp
    have hd0: "hd S = S ! 0" using False by (simp add: hd_conv_nth)
    let ?ft = "familyTimeOfTimestamp calc (Timestamp (m (S ! 0)))"
    let ?tr = "timeRangeOfTimestamp calc (Timestamp (m (S ! 0)))"
    have tr: "?tr = \<lparr>Start = ?ft, End = CalcFamilyEndTime calc ?ft\<rparr>"
      by (rule timeRange_of_familyTime)
    have sf: "same_family_from S ?tr 1" using True False by (simp add: one_family_def)
    have all: "\<forall>r \<in> set S. Contains ?tr (Timestamp (m r))"
    proof
      fix r assume "r \<in> set S"
      then obtain k where k: "k < length S" "r = S ! k" by (auto simp: in_set_conv_nth)
      show "Contains ?tr (Timestamp (m r))"
      proof (cases "k = 0")
        case True
        with k fits l show ?thesis by (simp add: calculator_fits_def)
      next
        case False
        with same_family_from_all [OF sf, of k] k show ?thesis by simp
      qed
    qed
    from False fg have "family_groups ?itr = [(?ft, S)]" by (simp add: reset_f_fields)
    with False all hd0 tr show ?thesis by simp
  qed
next
  case False
  let ?itr = "reset_f srt itr0 S calc"
  let ?rs = "srt Less_f S"
  have ms: "mset ?rs = mset S" by (rule sort_contract_Less_f [OF srt])
  have so: "sorted (map (\<lambda>r. sint (Timestamp (m r))) ?rs)" by (rule sort_contract_Less_f [OF srt])
  have fits': "calculator_fits calc ?rs" using fits calculator_fits_mset [OF ms] by simp
  have own: "\<forall>r \<in> set (rows_f ?itr).
           Contains (timeRangeOfTimestamp (intervalCalc ?itr) (Timestamp (m r))) (Timestamp (m r))"
    using fits' False by (simp add: reset_f_fields calculator_fits_def)
  have ns: "\<not> sameFamily ?itr" using False by (simp add: reset_f_fields)
  have se: "groupStart_f ?itr \<le> groupEnd_f ?itr" by (simp add: reset_f_fields)
  note a = family_groups_sorted_mode [OF ns se own]
  have c1: "mset (concat (map snd (family_groups ?itr))) = mset S"
    using a ms False by (simp add: reset_f_fields)
  have c2: "\<forall>(ft, g) \<in> set (family_groups ?itr).
           g \<noteq> [] \<and> ft = familyTimeOfTimestamp calc (Timestamp (m (hd g)))
           \<and> (\<forall>r \<in> set g. Contains \<lparr>Start = ft, End = CalcFamilyEndTime calc ft\<rparr> (Timestamp (m r)))"
    using a by (auto simp: reset_f_fields timeRange_of_familyTime)
  have c3: "sorted_wrt (\<lambda>x y. sint x < sint y) (map fst (family_groups ?itr))"
    using family_groups_ascending [OF ns se] fits' so False by (simp add: reset_f_fields)
  from c1 c2 c3 show ?thesis by blast
qed

lemma ex_calc_values:
  "familyTimeOfTimestamp ex_calc 1000 = 0"
  "familyTimeOfTimestamp ex_calc 7201000 = 7200000"
  "timeRangeOfTimestamp ex_calc 1000 = \<lparr>Start = 0, End = 3599999\<rparr>"
  "timeRangeOfTimestamp ex_calc 7201000 = \<lparr>Start = 7200000, End = 10799999\<rparr>"
  by (simp_all add: familyTimeOfTimestamp_def timeRangeOfTimestamp_def ex_calc_def Let_def)

text \<open>
  Claim C1. For the slice \<open>rows[groupStart:groupEnd]\<close> that \<open>FamilyRowsForNextShard\<close>
  hands to the family iterator, with the interval's calculator placing each timestamp of
  the slice in its own family window and ordering family starts as timestamps: the groups
  emitted by \<open>HasNextFamily\<close>/\<open>NextFamily\<close> concatenate to a permutation of the slice;
  every group is non-empty, its family time is the family start of its first row, and all
  its timestamps lie between that family start and its family end; the family times of
  successive groups increase strictly.
\<close>

theorem family_iterator_groups:
  assumes srt: "sort_contract srt"
    and fits: "calculator_fits interval (subslice (rows br) (groupStart itr) (groupEnd itr))"
    and run: "FamilyRowsForNextShard srt interval br itr familyIterator = (shardID, familyIterator', br')"
  shows "mset (concat (map snd (family_groups familyIterator')))
           = mset (subslice (rows br) (groupStart itr) (groupEnd itr))
     \<and> (\<forall>(familyTime, g) \<in> set (family_groups familyIterator').
           g \<noteq> [] \<and> familyTime = familyTimeOfTimestamp interval (Timestamp (m (hd g)))
           \<and> (\<forall>r \<in> set g. Contains \<lparr>Start = familyTime, End = CalcFamilyEndTime interval familyTime\<rparr>
                               (Timestamp (m r))))
     \<and> sorted_wrt (\<lambda>x y. sint x < sint y) (map fst (family_groups familyIterator'))
     \<and> shardID = groupShardID itr"
proof -
  from run have fi: "familyIterator'
      = reset_f srt familyIterator (subslice (rows br) (groupStart itr) (groupEnd itr)) interval"
    and sid: "shardID = groupShardID itr"
    by (simp_all add: FamilyRowsForNextShard_def Let_def)
  from reset_f_groups [OF srt fits, of familyIterator] sid show ?thesis
    unfolding fi by blast
qed

lemma ex_slice: "subslice (rows ex_family_batch) (groupStart ex_shard_itr) (groupEnd ex_shard_itr)
    = [ex_time_row 7201000 1, ex_time_row 1000 2]"
  by (simp add: subslice_def ex_family_batch_def ex_shard_itr_def)

lemma ex_fits: "calculator_fits ex_calc [ex_time_row 7201000 1, ex_time_row 1000 2]"
  by (simp add: calculator_fits_def ex_time_row_def ex_calc_values Contains_def)

lemma ex_reset_f:
  "reset_f insertion_sorter ex_family_itr [ex_time_row 7201000 1, ex_time_row 1000 2] ex_calc
     = \<lparr>groupEnd_f = 0, groupStart_f = 0, groupFamilyTime = 7200000, sameFamily = False,
        rows_f = [ex_time_row 1000 2, ex_time_row 7201000 1], intervalCalc = ex_calc\<rparr>"
  by (simp add: reset_f_def isSameFamily_def ex_family_itr_def same_family_from.simps
        ex_time_row_def ex_calc_values Contains_def insertion_sorter_def Less_f_def Let_def)

lemma ex_family_groups:
  "family_groups \<lparr>groupEnd_f = 0, groupStart_f = 0, groupFamilyTime = 7200000, sameFamily = False,
        rows_f = [ex_time_row 1000 2, ex_time_row 7201000 1], intervalCalc = ex_calc\<rparr>
     = [(0, [ex_time_row 1000 2]), (7200000, [ex_time_row 7201000 1])]"
  apply (subst family_groups.simps)
  apply (simp add: HasNextFamily_def NextFamily_def family_run_end.simps ex_time_row_def
           ex_calc_values Contains_def subslice_def Let_def)
  apply (subst family_groups.simps)
  apply (simp add: HasNextFamily_def NextFamily_def family_run_end.simps ex_time_row_def
           ex_calc_values Contains_def subslice_def Let_def)
  apply (subst family_groups.simps)
  apply (simp add: HasNextFamily_def NextFamily_def family_run_end.simps ex_time_row_def
           ex_calc_values Contains_def subslice_def Let_def)
  done

theorem family_iterator_groups_witness:
  "sort_contract insertion_sorter
   \<and> calculator_fits ex_calc (subslice (rows ex_family_batch) (groupStart ex_shard_itr) (groupEnd ex_shard_itr))
   \<and> family_groups (fst (snd (FamilyRowsForNextShard insertion_sorter ex_calc ex_family_batch
                                 ex_shard_itr ex_family_itr)))
        = [(0, [ex_time_row 1000 2]), (7200000, [ex_time_row 7201000 1])]
   \<and> mset (concat (map snd (family_groups (fst (snd (FamilyRowsForNextShard insertion_sorter ex_calc
                                 ex_family_batch ex_shard_itr ex_family_itr))))))
        = mset [ex_time_row 7201000 1, ex_time_row 1000 2]"
proof -
  have fits: "calculator_fits ex_calc (subslice (rows ex_family_batch) (groupStart ex_shard_itr) (groupEnd ex_shard_itr))"
    by (simp only: ex_slice ex_fits)
  let ?run = "FamilyRowsForNextShard insertion_sorter ex_calc ex_family_batch ex_shard_itr ex_family_itr"
  have run: "?run = (fst ?run, fst (snd ?run), snd (snd ?run))" by simp
  have fi: "fst (snd ?run) = \<lparr>groupEnd_f = 0, groupStart_f = 0, groupFamilyTime = 7200000,
        sameFamily = False, rows_f = [ex_time_row 1000 2, ex_time_row 7201000 1], intervalCalc = ex_calc\<rparr>"
    by (simp add: FamilyRowsForNextShard_def Let_def ex_slice ex_reset_f)
  from family_iterator_groups [OF sort_contract_insertion_sorter fits run]
  have "mset (concat (map snd (family_groups (fst (snd ?run)))))
           = mset (subslice (rows ex_family_batch) (groupStart ex_shard_itr) (groupEnd ex_shard_itr))"
    by (rule conjunct1)
  then have ms: "mset (concat (map snd (family_groups (fst (snd ?run)))))
           = mset [ex_time_row 7201000 1, ex_time_row 1000 2]"
    by (simp only: ex_slice)
  have gs: "family_groups (fst (snd ?run))
        = [(0, [ex_time_row 1000 2]), (7200000, [ex_time_row 7201000 1])]"
    by (simp only: fi ex_family_groups)
  from sort_contract_insertion_sorter fits gs ms show ?thesis by blast
qed

lemma shard_run_end_cong:
  assumes "Len br' = Len br"
    and "\<forall>i. e \<le> i \<and> i < Len br \<longrightarrow> rows br' ! i = rows br ! i"
  shows "shard_run_end br' sid e = shard_run_end br sid e"
  using assms
proof (induction br sid e rule: shard_run_end.induct)
  case (1 br sid e)
  show ?case
  proof (cases "e < Len br \<and> ShardID (rows br ! e) = sid")
    case True
    with "1.prems" have t': "e < Len br' \<and> ShardID (rows br' ! e) = sid" by simp
    from True "1.IH" "1.prems" have "shard_run_end br' sid (e + 1) = shard_run_end br sid (e + 1)"
      by simp
    moreover from True have "shard_run_end br sid e = shard_run_end br sid (e + 1)"
      by (subst shard_run_end.simps) simp
    moreover from t' have "shard_run_end br' sid e = shard_run_end br' sid (e + 1)"
      by (subst shard_run_end.simps) simp
    ultimately show ?thesis by simp
  next
    case False
    with "1.prems" have f': "\<not> (e < Len br' \<and> ShardID (rows br' ! e) = sid)" by auto
    from False have "shard_run_end br sid e = e" by (subst shard_run_end.simps) auto
    moreover from f' have "shard_run_end br' sid e = e" by (subst shard_run_end.simps) auto
    ultimately show ?thesis by simp
  qed
qed

lemma shard_groups_cong:
  assumes "groupStart itr \<le> groupEnd itr"
    and "Len br \<le> length (rows br)" and "Len br \<le> length (rows br')" and "Len br' = Len br"
    and "\<forall>i. groupEnd itr \<le> i \<and> i < Len br \<longrightarrow> rows br' ! i = rows br ! i"
  shows "shard_groups br' itr = shard_groups br itr"
  using assms
proof (induction br itr rule: shard_groups.induct)
  case (1 br itr)
  let ?e = "groupEnd itr" and ?n = "Len br"
  show ?case
  proof (cases "?e < ?n")
    case False
    then have "HasRowsForNextShard br itr = (False, itr)" by (simp add: HasRowsForNextShard_def)
    moreover from False "1.prems"(4) have "HasRowsForNextShard br' itr = (False, itr)"
      by (simp add: HasRowsForNextShard_def)
    ultimately show ?thesis by (subst (1 2) shard_groups.simps) simp
  next
    case True
    let ?sid = "ShardID (rows br ! ?e)"
    let ?e' = "shard_run_end br ?sid ?e"
    let ?itr' = "itr\<lparr>groupShardID := ?sid, groupStart := ?e, groupEnd := ?e'\<rparr>"
    have hn: "HasRowsForNextShard br itr = (True, ?itr')"
      by (rule HasRowsForNextShard_next [OF "1.prems"(1) True])
    have same_e: "rows br' ! ?e = rows br ! ?e" using "1.prems"(5) True by simp
    have run': "shard_run_end br' ?sid ?e = ?e'"
      by (rule shard_run_end_cong [OF "1.prems"(4,5)])
    have lt': "?e < Len br'" using True "1.prems"(4) by simp
    have hn': "HasRowsForNextShard br' itr = (True, ?itr')"
      using HasRowsForNextShard_next [OF "1.prems"(1) lt'] same_e run' by simp
    have ee': "?e < ?e'" by (rule shard_run_end_step [OF True])
    have e'n: "?e' \<le> ?n" using True by (intro shard_run_end_le) simp
    have ih: "shard_groups br' ?itr' = shard_groups br ?itr'"
      using "1.IH" [OF hn [symmetric] refl] "1.prems" ee' by simp
    have sl: "subslice (rows br') ?e ?e' = subslice (rows br) ?e ?e'"
      using e'n "1.prems"(2,3,5) by (intro slice_cong) auto
    have "shard_groups br itr = (?sid, subslice (rows br) ?e ?e') # shard_groups br ?itr'"
      by (subst shard_groups.simps) (simp add: hn)
    moreover have "shard_groups br' itr = (?sid, subslice (rows br') ?e ?e') # shard_groups br' ?itr'"
      by (subst shard_groups.simps) (simp add: hn')
    ultimately show ?thesis using ih sl by simp
  qed
qed

text \<open>
  The sort of a shard group's slice by the family iterator reorders the batch inside the
  group only, so the shard groups that remain to be visited are those of the batch as it was.
\<close>

lemma FamilyRowsForNextShard_keeps_shard_iteration:
  assumes srt: "sort_contract srt" and wf: "wf_batch br"
    and se: "groupStart itr \<le> groupEnd itr" and el: "groupEnd itr \<le> Len br"
    and run: "FamilyRowsForNextShard srt interval br itr familyIterator = (shardID, familyIterator', br')"
  shows "shard_groups br' itr = shard_groups br itr"
proof -
  let ?S = "subslice (rows br) (groupStart itr) (groupEnd itr)"
  from wf el have len: "Len br \<le> length (rows br)" "groupEnd itr \<le> length (rows br)"
    by (simp_all add: wf_batch_def Len_def)
  from run have br': "br' = br\<lparr>rows := take (groupStart itr) (rows br)
        @ rows_f (reset_f srt familyIterator ?S interval) @ drop (groupEnd itr) (rows br)\<rparr>"
    by (auto simp: FamilyRowsForNextShard_def Let_def)
  have "mset (rows_f (reset_f srt familyIterator ?S interval)) = mset ?S"
    using sort_contract_Less_f(1) [OF srt] by (simp add: reset_f_fields)
  then have "length (rows_f (reset_f srt familyIterator ?S interval)) = length ?S"
    by (rule mset_eq_length)
  then have lf: "length (rows_f (reset_f srt familyIterator ?S interval)) = groupEnd itr - groupStart itr"
    using len se by (simp add: subslice_def)
  have rc: "Len br' = Len br" using br' by (simp add: Len_def)
  have ll: "length (rows br') = length (rows br)" using br' lf len se by simp
  have tail: "\<forall>i. groupEnd itr \<le> i \<and> i < Len br \<longrightarrow> rows br' ! i = rows br ! i"
  proof (intro allI impI)
    fix i assume i: "groupEnd itr \<le> i \<and> i < Len br"
    let ?pre = "take (groupStart itr) (rows br) @ rows_f (reset_f srt familyIterator ?S interval)"
    have lp: "length ?pre = groupEnd itr" using lf len se by simp
    have "rows br' ! i = (?pre @ drop (groupEnd itr) (rows br)) ! i" using br' by simp
    also have "\<dots> = drop (groupEnd itr) (rows br) ! (i - groupEnd itr)"
      using i lp by (simp only: nth_append) simp
    also have "\<dots> = rows br ! i" using i len by simp
    finally show "rows br' ! i = rows br ! i" .
  qed
  show ?thesis
    using shard_groups_cong [OF se len(1) _ rc tail] ll len(1) by simp
qed






section \<open>Remote replicator (replica/replicator_remote.go)\<close>

text \<open>
  Modelled from the spec: the remote replicator. Its source file is not under src/ (only
  its test, replica/replicator_remote_test.go, is); the definitions of this section follow
  section 4.7 of the specification. Sequence numbers are the spec's integers. Every call
  the replicator makes on the follower's RPC client, on the stream and on the queue is
  recorded, in order, in a list of calls; the outcome of each such call is an input.
\<close>

datatype ReplicatorState = ReplicatorInitState | ReplicatorReadyState | ReplicatorFailureState

record ReplicaState =
  Database :: string
  replica_ShardID :: int
  Leader :: int
  Follower :: int

record ReplicaRequest =
  req_database :: string
  req_shardID :: int
  req_leader :: int
  req_follower :: int
  replicaIndex :: int
  payload :: "byte list"

datatype call =
    GetLiveNode int
  | CreateReplicaServiceClient
  | Client_Replica
  | Client_GetReplicaAckIndex
  | Client_Reset int
  | FanOutQueue_SetAppendSeq int
  | Queue_SetHeadSeq int
  | Stream_Send ReplicaRequest
  | Stream_Recv
  | Queue_Ack int

record remoteReplicator =
  channel_State :: ReplicaState
  state :: ReplicatorState
  stream_open :: bool

text \<open>
  What the collaborators answer during one handshake: whether the follower is a live node,
  the results of creating the client, opening the stream and asking for the follower's ack
  index, the three positions of the leader's queue, and the results of \<open>reset\<close> and
  \<open>setHeadSeq\<close>.
\<close>

record handshake_env =
  liveNode :: bool
  createClient :: "error option"
  openStream :: "error option"
  getReplicaAckIndex :: "error + int"
  myHead :: int
  myTail :: int
  myAppend :: int
  resetResult :: "error option"
  setHeadSeqResult :: "error option"

text \<open>
  Modelled from the spec: step 6 of the handshake, the reconciliation rules in the order the spec lists them (the
  last rule is its "Else"). The result is whether the replicator is ready and the calls made.
\<close>

definition reconcile :: "handshake_env \<Rightarrow> int \<Rightarrow> bool \<times> call list" where
  "reconcile env ackIndex =
     (if ackIndex = myHead env - 1 then (True, [])
      else if ackIndex < myTail env then
        (case resetResult env of
           Some e \<Rightarrow> (False, [Client_Reset ackIndex])
         | None \<Rightarrow>
            (case setHeadSeqResult env of
               Some e \<Rightarrow> (False, [Client_Reset ackIndex, Queue_SetHeadSeq (ackIndex + 1)])
             | None \<Rightarrow> (True, [Client_Reset ackIndex, Queue_SetHeadSeq (ackIndex + 1)])))
      else if ackIndex > myAppend env - 1 then
        (True, [FanOutQueue_SetAppendSeq (ackIndex + 1), Queue_SetHeadSeq (ackIndex + 1)])
      else
        (case setHeadSeqResult env of
           Some e \<Rightarrow> (False, [Queue_SetHeadSeq (ackIndex + 1)])
         | None \<Rightarrow> (True, [Queue_SetHeadSeq (ackIndex + 1)])))"

text \<open>
  Modelled from the spec: steps 1 to 6 of the handshake; the first failing step ends it.
\<close>

definition handshake :: "handshake_env \<Rightarrow> remoteReplicator \<Rightarrow> bool \<times> call list" where
  "handshake env r =
     (let c1 = [GetLiveNode (Follower (channel_State r))] in
      if \<not> liveNode env then (False, c1)
      else case createClient env of
        Some e \<Rightarrow> (False, c1 @ [CreateReplicaServiceClient])
      | None \<Rightarrow>
         (case openStream env of
            Some e \<Rightarrow> (False, c1 @ [CreateReplicaServiceClient, Client_Replica])
          | None \<Rightarrow>
             (case getReplicaAckIndex env of
                Inl e \<Rightarrow> (False, c1 @ [CreateReplicaServiceClient, Client_Replica, Client_GetReplicaAckIndex])
              | Inr ackIndex \<Rightarrow>
                 (let (ok, cs) = reconcile env ackIndex
                  in (ok, c1 @ [CreateReplicaServiceClient, Client_Replica, Client_GetReplicaAckIndex] @ cs)))))"

text \<open>
  Modelled from the spec: \<open>isReady\<close>, by the state table: a ready replicator answers true at once; from init, and
  from failed after dropping the stream, the handshake runs and its outcome is the new state.
\<close>

definition isReady :: "handshake_env \<Rightarrow> remoteReplicator \<Rightarrow> bool \<times> remoteReplicator \<times> call list" where
  "isReady env r =
     (if state r = ReplicatorReadyState then (True, r, [])
      else
        let r0 = r\<lparr>state := ReplicatorInitState, stream_open := False\<rparr>;
            (ok, cs) = handshake env r0
        in if ok then (True, r0\<lparr>state := ReplicatorReadyState, stream_open := True\<rparr>, cs)
           else (False, r0\<lparr>state := ReplicatorFailureState, stream_open := False\<rparr>, cs))"

text \<open>What the stream answers to one \<open>replica\<close> call.\<close>

record replica_env =
  sendResult :: "error option"
  recvResult :: "error + int"

text \<open>
  Modelled from the spec: the message that \<open>replica(seq, bytes)\<close> sends, built from the
  replicator's state, the sequence and the payload.
\<close>

definition request :: "remoteReplicator \<Rightarrow> int \<Rightarrow> byte list \<Rightarrow> ReplicaRequest" where
  "request r seq bytes =
     \<lparr>req_database = Database (channel_State r), req_shardID = replica_ShardID (channel_State r),
      req_leader = Leader (channel_State r), req_follower = Follower (channel_State r),
      replicaIndex = seq, payload = bytes\<rparr>"

text \<open>
  Modelled from the spec: \<open>replica(seq, bytes)\<close>: send, then receive, then acknowledge the
  index received; an error of the send or of the receive ends the call in the failed state.
\<close>

definition replica :: "replica_env \<Rightarrow> remoteReplicator \<Rightarrow> int \<Rightarrow> byte list \<Rightarrow> remoteReplicator \<times> call list" where
  "replica env r seq bytes =
     (case sendResult env of
        Some e \<Rightarrow> (r\<lparr>state := ReplicatorFailureState, stream_open := False\<rparr>, [Stream_Send (request r seq bytes)])
      | None \<Rightarrow>
         (case recvResult env of
            Inl e \<Rightarrow> (r\<lparr>state := ReplicatorFailureState, stream_open := False\<rparr>,
                       [Stream_Send (request r seq bytes), Stream_Recv])
          | Inr ackIndex \<Rightarrow> (r, [Stream_Send (request r seq bytes), Stream_Recv, Queue_Ack ackIndex])))"

definition ex_replicator :: remoteReplicator where
  "ex_replicator =
     \<lparr>channel_State = \<lparr>Database = ''test'', replica_ShardID = 0, Leader = 1, Follower = 2\<rparr>,
      state = ReplicatorInitState, stream_open = False\<rparr>"

definition ex_handshake :: "int \<Rightarrow> int \<Rightarrow> int \<Rightarrow> int \<Rightarrow> error option \<Rightarrow> error option \<Rightarrow> handshake_env" where
  "ex_handshake h t a ackIndex rst shs =
     \<lparr>liveNode = True, createClient = None, openStream = None, getReplicaAckIndex = Inr ackIndex,
      myHead = h, myTail = t, myAppend = a, resetResult = rst, setHeadSeqResult = shs\<rparr>"

text \<open>
  The model against the repository's own test: cases 5 to 8 of
  \<open>TestRemoteReplicator_IsReady\<close>, with the positions its mocks return, give the calls the
  test expects and the readiness it asserts.
\<close>

lemma isReady_test_cases:
  "fst (isReady (ex_handshake 11 0 0 10 None None) ex_replicator) = True"
  "snd (snd (isReady (ex_handshake 11 0 0 10 None None) ex_replicator))
     = [GetLiveNode 2, CreateReplicaServiceClient, Client_Replica, Client_GetReplicaAckIndex]"
  "fst (isReady (ex_handshake 12 13 10 10 (Some (Err ''err'')) None) ex_replicator) = False"
  "fst (isReady (ex_handshake 12 13 10 10 None None) ex_replicator) = True"
  "snd (snd (isReady (ex_handshake 12 13 10 10 None None) ex_replicator))
     = [GetLiveNode 2, CreateReplicaServiceClient, Client_Replica, Client_GetReplicaAckIndex,
        Client_Reset 10, Queue_SetHeadSeq 11]"
  "fst (isReady (ex_handshake 12 9 5 10 None (Some (Err ''err''))) ex_replicator) = True"
  "snd (snd (isReady (ex_handshake 12 9 5 10 None (Some (Err ''err''))) ex_replicator))
     = [GetLiveNode 2, CreateReplicaServiceClient, Client_Replica, Client_GetReplicaAckIndex,
        FanOutQueue_SetAppendSeq 11, Queue_SetHeadSeq 11]"
  by (simp_all add: isReady_def handshake_def reconcile_def ex_handshake_def ex_replicator_def)



text \<open>
  Claim C5. \<open>replica(seq, bytes)\<close> sends the request and, only when the send succeeded,
  waits for the response; \<open>ack(response.ackIndex)\<close> is called exactly when both succeeded.
  After a send error or a recv error there is no \<open>ack\<close> among the calls and the replicator
  is in the failed state.
\<close>

theorem replica_acks_iff_both_succeed:
  "(case sendResult env of
      Some e \<Rightarrow>
        replica env r seq bytes
          = (r\<lparr>state := ReplicatorFailureState, stream_open := False\<rparr>, [Stream_Send (request r seq bytes)])
    | None \<Rightarrow>
       (case recvResult env of
          Inl e \<Rightarrow>
            replica env r seq bytes
              = (r\<lparr>state := ReplicatorFailureState, stream_open := False\<rparr>,
                 [Stream_Send (request r seq bytes), Stream_Recv])
        | Inr a \<Rightarrow>
            replica env r seq bytes = (r, [Stream_Send (request r seq bytes), Stream_Recv, Queue_Ack a])))
   \<and> ((\<exists>a. Queue_Ack a \<in> set (snd (replica env r seq bytes)))
        \<longleftrightarrow> sendResult env = None \<and> (\<exists>a. recvResult env = Inr a))"
  by (auto simp: replica_def split: option.splits sum.splits)

section \<open>Shard level replica sequence (tsdb/sequence.go)\<close>

text \<open>
  Modelled from the spec: \<open>queue.Sequence\<close> (pkg/queue, not under src/) is the per-peer
  pair of positions the spec calls \<open>headSeq\<close> and \<open>ackSeq\<close>; its setters store and its
  getters load the position.
\<close>

record Sequence =
  headSeq :: int64
  ackSeq :: int64

text \<open>Modelled from the spec: the getters and setters of \<open>queue.Sequence\<close>.\<close>

definition GetHeadSeq :: "Sequence \<Rightarrow> int64" where
  "GetHeadSeq seq = headSeq seq"

definition GetAckSeq :: "Sequence \<Rightarrow> int64" where
  "GetAckSeq seq = ackSeq seq"

definition SetHeadSeq :: "int64 \<Rightarrow> Sequence \<Rightarrow> Sequence" where
  "SetHeadSeq v seq = seq\<lparr>headSeq := v\<rparr>"

definition SetAckSeq :: "int64 \<Rightarrow> Sequence \<Rightarrow> Sequence" where
  "SetAckSeq v seq = seq\<lparr>ackSeq := v\<rparr>"

text \<open>
  The file system and the helpers of other packages, as the functions the code calls:
  \<open>fileutil.Exist\<close>, \<open>listDir\<close>, \<open>mkDirIfNotExist\<close>, \<open>path.Join\<close>, \<open>newSequenceFunc\<close>
  (which opens the sequence persisted at a path), \<open>Sync\<close> of the sequence of a peer, and
  the order in which \<open>sync.Map.Range\<close> visits the entries, which Go leaves open.
\<close>

record seq_env =
  Exist :: "string \<Rightarrow> bool"
  listDir :: "string \<Rightarrow> error + string list"
  mkDirIfNotExist :: "string \<Rightarrow> error option"
  path_Join :: "string \<Rightarrow> string \<Rightarrow> string"
  newSequenceFunc :: "string \<Rightarrow> error + Sequence"
  Sync :: "string \<Rightarrow> Sequence \<Rightarrow> error option"
  Range_order :: "(string \<rightharpoonup> Sequence) \<Rightarrow> (string \<times> Sequence) list"

record replicaSequence =
  dirPath :: string
  sequenceMap :: "string \<rightharpoonup> Sequence"
  syncing :: bool

text \<open>
  \<open>syncSequence\<close>: when the compare-and-swap on \<open>syncing\<close> succeeds, every sequence is
  synced and \<open>err\<close> is overwritten each time, so the error of the last one visited is returned.
\<close>

fun sync_range :: "seq_env \<Rightarrow> (string \<times> Sequence) list \<Rightarrow> error option \<Rightarrow> error option" where
  "sync_range env [] err = err"
| "sync_range env ((key, seq) # rest) err = sync_range env rest (Sync env key seq)"

definition syncSequence :: "seq_env \<Rightarrow> replicaSequence \<Rightarrow> replicaSequence \<times> error option" where
  "syncSequence env ss =
     (if \<not> syncing ss then
        (ss\<lparr>syncing := False\<rparr>, sync_range env (Range_order env (sequenceMap ss)) None)
      else (ss, None))"

text \<open>The loop of \<open>newReplicaSequence\<close> over the remote peers found in the directory.\<close>

fun load_peers :: "seq_env \<Rightarrow> replicaSequence \<Rightarrow> string list \<Rightarrow> error + replicaSequence" where
  "load_peers env ss [] = Inr ss"
| "load_peers env ss (remotePeer # rest) =
     (let filePath = path_Join env (dirPath ss) remotePeer in
      case newSequenceFunc env filePath of
        Inl err \<Rightarrow> Inl err
      | Inr seq \<Rightarrow>
          load_peers env
            (ss\<lparr>sequenceMap := (sequenceMap ss)(remotePeer \<mapsto> SetHeadSeq (GetAckSeq seq) seq)\<rparr>) rest)"

definition newReplicaSequence :: "seq_env \<Rightarrow> string \<Rightarrow> error + replicaSequence" where
  "newReplicaSequence env path =
     (if Exist env path then
        (case listDir env path of
           Inl err \<Rightarrow> Inl err
         | Inr remotePeers \<Rightarrow>
            (case load_peers env \<lparr>dirPath = path, sequenceMap = Map.empty, syncing = False\<rparr> remotePeers of
               Inl err \<Rightarrow> Inl err
             | Inr ss \<Rightarrow>
                (case syncSequence env ss of
                   (ss', Some err) \<Rightarrow> Inl err
                 | (ss', None) \<Rightarrow> Inr ss')))
      else
        (case mkDirIfNotExist env path of
           Some err \<Rightarrow> Inl err
         | None \<Rightarrow> Inr \<lparr>dirPath = path, sequenceMap = Map.empty, syncing = False\<rparr>))"

definition getAllHeads :: "replicaSequence \<Rightarrow> (string \<rightharpoonup> int64)" where
  "getAllHeads ss = (\<lambda>key. map_option GetHeadSeq (sequenceMap ss key))"

definition ex_seq_env :: seq_env where
  "ex_seq_env =
     \<lparr>Exist = (\<lambda>path. True),
      listDir = (\<lambda>path. Inr [''1'', ''2'']),
      mkDirIfNotExist = (\<lambda>path. None),
      path_Join = (\<lambda>dir name. dir @ ''/'' @ name),
      newSequenceFunc = (\<lambda>filePath.
         if filePath = ''/data/1'' then Inr \<lparr>headSeq = 20, ackSeq = 15\<rparr>
         else Inr \<lparr>headSeq = 9, ackSeq = 7\<rparr>),
      Sync = (\<lambda>key seq. None),
      Range_order = (\<lambda>mp. concat (map (\<lambda>key. case mp key of None \<Rightarrow> [] | Some seq \<Rightarrow> [(key, seq)])
                                  [''1'', ''2'']))\<rparr>"

lemma load_peers_inv:
  "load_peers env ss peers = Inr ss' \<Longrightarrow>
   dirPath ss' = dirPath ss \<and> syncing ss' = syncing ss
   \<and> dom (sequenceMap ss') = dom (sequenceMap ss) \<union> set peers
   \<and> (\<forall>p s. sequenceMap ss' p = Some s \<longrightarrow>
          (p \<notin> set peers \<and> sequenceMap ss p = Some s)
          \<or> (p \<in> set peers \<and> (\<exists>seq. newSequenceFunc env (path_Join env (dirPath ss) p) = Inr seq
                 \<and> s = seq\<lparr>headSeq := ackSeq seq\<rparr>)))"
proof (induction peers arbitrary: ss)
  case Nil
  then show ?case by auto
next
  case (Cons p ps)
  from Cons.prems obtain seq where
    ld: "newSequenceFunc env (path_Join env (dirPath ss) p) = Inr seq"
    and rest: "load_peers env
        (ss\<lparr>sequenceMap := (sequenceMap ss)(p \<mapsto> SetHeadSeq (GetAckSeq seq) seq)\<rparr>) ps = Inr ss'"
    by (auto simp: Let_def split: sum.splits)
  note ih = Cons.IH [OF rest]
  have d: "dirPath ss' = dirPath ss" "syncing ss' = syncing ss" using ih by simp_all
  have dm: "dom (sequenceMap ss') = dom (sequenceMap ss) \<union> set (p # ps)" using ih by auto
  have vals: "\<forall>q s. sequenceMap ss' q = Some s \<longrightarrow>
          (q \<notin> set (p # ps) \<and> sequenceMap ss q = Some s)
          \<or> (q \<in> set (p # ps) \<and> (\<exists>seq. newSequenceFunc env (path_Join env (dirPath ss) q) = Inr seq
                 \<and> s = seq\<lparr>headSeq := ackSeq seq\<rparr>))"
  proof (intro allI impI)
    fix q s assume qs: "sequenceMap ss' q = Some s"
    from ih qs have "(q \<notin> set ps \<and> ((sequenceMap ss)(p \<mapsto> SetHeadSeq (GetAckSeq seq) seq)) q = Some s)
          \<or> (q \<in> set ps \<and> (\<exists>seq. newSequenceFunc env (path_Join env (dirPath ss) q) = Inr seq
                 \<and> s = seq\<lparr>headSeq := ackSeq seq\<rparr>))"
      by simp
    then show "(q \<notin> set (p # ps) \<and> sequenceMap ss q = Some s)
          \<or> (q \<in> set (p # ps) \<and> (\<exists>seq. newSequenceFunc env (path_Join env (dirPath ss) q) = Inr seq
                 \<and> s = seq\<lparr>headSeq := ackSeq seq\<rparr>))"
      using ld by (cases "q = p") (auto simp: SetHeadSeq_def GetAckSeq_def)
  qed
  from d dm vals show ?case by blast
qed

text \<open>
  Claim C8. When the directory exists and \<open>newReplicaSequence\<close> returns a replica
  sequence, its map holds exactly the peers listed in the directory, and the sequence of
  every peer is the one loaded from the peer's file with its head set to its ack: head and
  ack are both the persisted ack, and \<open>getAllHeads\<close> reports the persisted ack.
\<close>

theorem newReplicaSequence_head_is_ack:
  assumes ex: "Exist env path" and ok: "newReplicaSequence env path = Inr ss"
  shows "\<exists>remotePeers. listDir env path = Inr remotePeers
           \<and> dom (sequenceMap ss) = set remotePeers
           \<and> (\<forall>p \<in> set remotePeers. \<exists>seq s.
                 newSequenceFunc env (path_Join env path p) = Inr seq
                 \<and> sequenceMap ss p = Some s
                 \<and> GetHeadSeq s = GetAckSeq seq \<and> GetAckSeq s = GetAckSeq seq
                 \<and> getAllHeads ss p = Some (GetAckSeq seq))"
proof -
  from ex ok obtain remotePeers ss0 where
    ls: "listDir env path = Inr remotePeers"
    and ld: "load_peers env \<lparr>dirPath = path, sequenceMap = Map.empty, syncing = False\<rparr> remotePeers = Inr ss0"
    and sy: "syncSequence env ss0 = (ss, None)"
    by (auto simp: newReplicaSequence_def split: sum.splits prod.splits option.splits)
  from sy have mp: "sequenceMap ss = sequenceMap ss0"
    by (auto simp: syncSequence_def split: if_splits)
  note inv = load_peers_inv [OF ld]
  have dm: "dom (sequenceMap ss) = set remotePeers" using inv mp by simp
  have each: "\<forall>p \<in> set remotePeers. \<exists>seq s.
                 newSequenceFunc env (path_Join env path p) = Inr seq
                 \<and> sequenceMap ss p = Some s
                 \<and> GetHeadSeq s = GetAckSeq seq \<and> GetAckSeq s = GetAckSeq seq
                 \<and> getAllHeads ss p = Some (GetAckSeq seq)"
  proof
    fix p assume p: "p \<in> set remotePeers"
    with dm obtain s where s: "sequenceMap ss p = Some s" by blast
    with inv mp p obtain seq where
      "newSequenceFunc env (path_Join env path p) = Inr seq" "s = seq\<lparr>headSeq := ackSeq seq\<rparr>"
      by fastforce
    with s show "\<exists>seq s.
                 newSequenceFunc env (path_Join env path p) = Inr seq
                 \<and> sequenceMap ss p = Some s
                 \<and> GetHeadSeq s = GetAckSeq seq \<and> GetAckSeq s = GetAckSeq seq
                 \<and> getAllHeads ss p = Some (GetAckSeq seq)"
      by (simp add: GetHeadSeq_def GetAckSeq_def getAllHeads_def)
  qed
  from ls dm each show ?thesis by blast
qed

lemma ex_newReplicaSequence:
  "newReplicaSequence ex_seq_env ''/data'' =
     Inr \<lparr>dirPath = ''/data'',
          sequenceMap = [''1'' \<mapsto> \<lparr>headSeq = 15, ackSeq = 15\<rparr>, ''2'' \<mapsto> \<lparr>headSeq = 7, ackSeq = 7\<rparr>],
          syncing = False\<rparr>"
  by (simp add: newReplicaSequence_def ex_seq_env_def syncSequence_def
        SetHeadSeq_def GetAckSeq_def)

theorem newReplicaSequence_head_is_ack_witness:
  "Exist ex_seq_env ''/data''
   \<and> (\<exists>ss. newReplicaSequence ex_seq_env ''/data'' = Inr ss
         \<and> dom (sequenceMap ss) = {''1'', ''2''}
         \<and> getAllHeads ss ''1'' = Some 15 \<and> getAllHeads ss ''2'' = Some 7)"
proof -
  have ex: "Exist ex_seq_env ''/data''" by (simp add: ex_seq_env_def)
  obtain ss where ok: "newReplicaSequence ex_seq_env ''/data'' = Inr ss"
    using ex_newReplicaSequence by blast
  have ls: "listDir ex_seq_env ''/data'' = Inr [''1'', ''2'']" by (simp add: ex_seq_env_def)
  have l1: "newSequenceFunc ex_seq_env (path_Join ex_seq_env ''/data'' ''1'') = Inr \<lparr>headSeq = 20, ackSeq = 15\<rparr>"
    by (simp add: ex_seq_env_def)
  have l2: "newSequenceFunc ex_seq_env (path_Join ex_seq_env ''/data'' ''2'') = Inr \<lparr>headSeq = 9, ackSeq = 7\<rparr>"
    by (simp add: ex_seq_env_def)
  from newReplicaSequence_head_is_ack [OF ex ok] ls l1 l2
  have "dom (sequenceMap ss) = {''1'', ''2''}
         \<and> getAllHeads ss ''1'' = Some 15 \<and> getAllHeads ss ''2'' = Some 7"
    by (auto simp: GetAckSeq_def)
  with ex ok show ?thesis by blast
qed

section \<open>Shard channel (replica/channel_shard.go)\<close>

text \<open>
  A family channel is the object \<open>newFamilyChannel\<close> allocates: its identity and the
  family time it was created for. Modelled from the spec: \<open>familyChannelSet\<close> (not under
  src/) is the spec's \<open>familyMap: familyTime \<rightarrow> familyChannel\<close>, read without a lock by
  \<open>GetFamilyChannel\<close> and written by \<open>InsertFamily\<close>.
\<close>

record FamilyChannel =
  fc_id :: nat
  fc_familyTime :: int64

type_synonym tid = nat

text \<open>
  Where a goroutine is inside \<open>GetOrCreateFamilyChannel(familyTime)\<close>: before the
  lock-free read, before \<open>c.mutex.Lock()\<close>, holding the mutex before the second read,
  holding it with the new channel before \<open>InsertFamily\<close>, and holding it at the return,
  where the deferred \<open>Unlock\<close> runs.
\<close>

datatype pc =
    Idle
  | FastPath int64
  | Lock int64
  | DoubleCheck int64
  | Insert int64 FamilyChannel
  | Return int64 FamilyChannel

record channel =
  families :: "int64 \<rightharpoonup> FamilyChannel"
  mutex :: "tid option"
  pcs :: "tid \<Rightarrow> pc"
  next_id :: nat
  created :: "FamilyChannel list"
  returned :: "(int64 \<times> FamilyChannel) list"

definition newChannel :: channel where
  "newChannel = \<lparr>families = Map.empty, mutex = None, pcs = (\<lambda>t. Idle), next_id = 0,
                  created = [], returned = []\<rparr>"

text \<open>
  Modelled from the spec: the read and the write of the family map, and \<open>newFamilyChannel\<close>
  (not under src/), which creates the family channel of a family time: it takes the next
  identity, and the creation is recorded in \<open>created\<close>.
\<close>

definition GetFamilyChannel :: "channel \<Rightarrow> int64 \<Rightarrow> FamilyChannel option" where
  "GetFamilyChannel c familyTime = families c familyTime"

definition InsertFamily :: "int64 \<Rightarrow> FamilyChannel \<Rightarrow> channel \<Rightarrow> channel" where
  "InsertFamily familyTime familyChannel c = c\<lparr>families := (families c)(familyTime \<mapsto> familyChannel)\<rparr>"

definition newFamilyChannel :: "int64 \<Rightarrow> channel \<Rightarrow> FamilyChannel \<times> channel" where
  "newFamilyChannel familyTime c =
     (let fc = \<lparr>fc_id = next_id c, fc_familyTime = familyTime\<rparr>
      in (fc, c\<lparr>next_id := next_id c + 1, created := created c @ [fc]\<rparr>))"

text \<open>One atomic step of goroutine \<open>t\<close>; a goroutine waiting for a held mutex does not move.\<close>

definition step :: "tid \<Rightarrow> channel \<Rightarrow> channel" where
  "step t c =
     (case pcs c t of
        Idle \<Rightarrow> c
      | FastPath familyTime \<Rightarrow>
          (case GetFamilyChannel c familyTime of
             Some familyChannel \<Rightarrow>
               c\<lparr>pcs := (pcs c)(t := Idle), returned := returned c @ [(familyTime, familyChannel)]\<rparr>
           | None \<Rightarrow> c\<lparr>pcs := (pcs c)(t := Lock familyTime)\<rparr>)
      | Lock familyTime \<Rightarrow>
          (case mutex c of
             None \<Rightarrow> c\<lparr>mutex := Some t, pcs := (pcs c)(t := DoubleCheck familyTime)\<rparr>
           | Some holder \<Rightarrow> c)
      | DoubleCheck familyTime \<Rightarrow>
          (case GetFamilyChannel c familyTime of
             Some familyChannel \<Rightarrow> c\<lparr>pcs := (pcs c)(t := Return familyTime familyChannel)\<rparr>
           | None \<Rightarrow>
               (let (familyChannel, c') = newFamilyChannel familyTime c
                in c'\<lparr>pcs := (pcs c')(t := Insert familyTime familyChannel)\<rparr>))
      | Insert familyTime familyChannel \<Rightarrow>
          (let c' = InsertFamily familyTime familyChannel c
           in c'\<lparr>pcs := (pcs c')(t := Return familyTime familyChannel)\<rparr>)
      | Return familyTime familyChannel \<Rightarrow>
          c\<lparr>mutex := None, pcs := (pcs c)(t := Idle),
            returned := returned c @ [(familyTime, familyChannel)]\<rparr>)"

text \<open>
  A schedule is a list of events: an idle goroutine calls \<open>GetOrCreateFamilyChannel\<close>, or a
  goroutine takes its next step.
\<close>

datatype event = Call tid int64 | Step tid

definition fire :: "event \<Rightarrow> channel \<Rightarrow> channel" where
  "fire e c =
     (case e of
        Call t familyTime \<Rightarrow>
          (if pcs c t = Idle then c\<lparr>pcs := (pcs c)(t := FastPath familyTime)\<rparr> else c)
      | Step t \<Rightarrow> step t c)"

fun run :: "event list \<Rightarrow> channel \<Rightarrow> channel" where
  "run [] c = c"
| "run (e # es) c = run es (fire e c)"

text \<open>A call by one goroutine alone: the call and the at most five steps it takes.\<close>

definition GetOrCreateFamilyChannel :: "tid \<Rightarrow> int64 \<Rightarrow> channel \<Rightarrow> channel" where
  "GetOrCreateFamilyChannel t familyTime c =
     run [Call t familyTime, Step t, Step t, Step t, Step t, Step t] c"

fun critical :: "pc \<Rightarrow> bool" where
  "critical (DoubleCheck familyTime) = True"
| "critical (Insert familyTime fc) = True"
| "critical (Return familyTime fc) = True"
| "critical other = False"

definition channel_inv :: "channel \<Rightarrow> bool" where
  "channel_inv c \<longleftrightarrow>
     (\<forall>t. critical (pcs c t) \<longleftrightarrow> mutex c = Some t)
   \<and> (\<forall>t ft fc. pcs c t = Insert ft fc \<longrightarrow> families c ft = None \<and> fc \<in> set (created c) \<and> fc_familyTime fc = ft)
   \<and> (\<forall>t ft fc. pcs c t = Return ft fc \<longrightarrow> families c ft = Some fc)
   \<and> (\<forall>ft fc. (ft, fc) \<in> set (returned c) \<longrightarrow> families c ft = Some fc)
   \<and> distinct (map fc_familyTime (created c))
   \<and> (\<forall>fc \<in> set (created c).
         families c (fc_familyTime fc) = Some fc \<or> (\<exists>t. pcs c t = Insert (fc_familyTime fc) fc))
   \<and> (\<forall>ft fc. families c ft = Some fc \<longrightarrow> fc \<in> set (created c) \<and> fc_familyTime fc = ft)"

definition ex_schedule :: "event list" where
  "ex_schedule =
     [Call 0 5, Call 1 5, Step 0, Step 1, Step 0, Step 1, Step 0, Step 0, Step 0,
      Step 1, Step 1, Step 1, Call 0 5, Step 0]"

lemma inv_newChannel: "channel_inv newChannel"
  by (simp add: channel_inv_def newChannel_def)

lemma channel_invI:
  assumes "\<And>t. critical (pcs c t) \<longleftrightarrow> mutex c = Some t"
    and "\<And>t ft fc. pcs c t = Insert ft fc \<Longrightarrow> families c ft = None \<and> fc \<in> set (created c) \<and> fc_familyTime fc = ft"
    and "\<And>t ft fc. pcs c t = Return ft fc \<Longrightarrow> families c ft = Some fc"
    and "\<And>ft fc. (ft, fc) \<in> set (returned c) \<Longrightarrow> families c ft = Some fc"
    and "distinct (map fc_familyTime (created c))"
    and "\<And>fc. fc \<in> set (created c) \<Longrightarrow>
         families c (fc_familyTime fc) = Some fc \<or> (\<exists>t. pcs c t = Insert (fc_familyTime fc) fc)"
    and "\<And>ft fc. families c ft = Some fc \<Longrightarrow> fc \<in> set (created c) \<and> fc_familyTime fc = ft"
  shows "channel_inv c"
  unfolding channel_inv_def using assms by blast

lemma channel_invD:
  assumes "channel_inv c"
  shows "critical (pcs c t) \<longleftrightarrow> mutex c = Some t"
    and "pcs c t = Insert ft fc \<Longrightarrow> families c ft = None \<and> fc \<in> set (created c) \<and> fc_familyTime fc = ft"
    and "pcs c t = Return ft fc \<Longrightarrow> families c ft = Some fc"
    and "(ft, fc) \<in> set (returned c) \<Longrightarrow> families c ft = Some fc"
    and "distinct (map fc_familyTime (created c))"
    and "fc \<in> set (created c) \<Longrightarrow>
         families c (fc_familyTime fc) = Some fc \<or> (\<exists>t. pcs c t = Insert (fc_familyTime fc) fc)"
    and "families c ft = Some fc \<Longrightarrow> fc \<in> set (created c) \<and> fc_familyTime fc = ft"
  using assms unfolding channel_inv_def by blast+

lemma mutex_excludes:
  assumes "channel_inv c" and "critical (pcs c t)" and "t' \<noteq> t"
  shows "\<not> critical (pcs c t')"
  using channel_invD(1) [OF assms(1), of t] channel_invD(1) [OF assms(1), of t'] assms(2,3)
  by auto

lemma inv_move_outside:
  assumes inv: "channel_inv c" and old: "\<not> critical (pcs c t)" and new: "\<not> critical p"
  shows "channel_inv (c\<lparr>pcs := (pcs c)(t := p)\<rparr>)" (is "channel_inv ?c")
proof (rule channel_invI)
  note d = channel_invD [OF inv]
  { fix t' show "critical (pcs ?c t') \<longleftrightarrow> mutex ?c = Some t'"
      using d(1) [of t'] old new by (cases "t' = t") auto }
  { fix t' ft' fc' assume a: "pcs ?c t' = Insert ft' fc'"
    with new have "t' \<noteq> t" by auto
    with a have "pcs c t' = Insert ft' fc'" by simp
    from d(2) [OF this]
    show "families ?c ft' = None \<and> fc' \<in> set (created ?c) \<and> fc_familyTime fc' = ft'" by simp }
  { fix t' ft' fc' assume a: "pcs ?c t' = Return ft' fc'"
    with new have "t' \<noteq> t" by auto
    with a have "pcs c t' = Return ft' fc'" by simp
    from d(3) [OF this] show "families ?c ft' = Some fc'" by simp }
  { fix ft' fc' assume "(ft', fc') \<in> set (returned ?c)"
    then show "families ?c ft' = Some fc'" using d(4) by simp }
  show "distinct (map fc_familyTime (created ?c))" using d(5) by simp
  { fix fc' assume "fc' \<in> set (created ?c)"
    then have "fc' \<in> set (created c)" by simp
    from d(6) [OF this] show "families ?c (fc_familyTime fc') = Some fc'
        \<or> (\<exists>t'. pcs ?c t' = Insert (fc_familyTime fc') fc')"
    proof
      assume "families c (fc_familyTime fc') = Some fc'"
      then show ?thesis by simp
    next
      assume "\<exists>t'. pcs c t' = Insert (fc_familyTime fc') fc'"
      then obtain t' where t': "pcs c t' = Insert (fc_familyTime fc') fc'" by blast
      with old have "t' \<noteq> t" by auto
      with t' have "pcs ?c t' = Insert (fc_familyTime fc') fc'" by simp
      then show ?thesis by blast
    qed }
  { fix ft' fc' assume "families ?c ft' = Some fc'"
    then show "fc' \<in> set (created ?c) \<and> fc_familyTime fc' = ft'" using d(7) by simp }
qed

lemma inv_returned:
  assumes inv: "channel_inv c" and hit: "families c ft = Some fc"
  shows "channel_inv (c\<lparr>returned := returned c @ [(ft, fc)]\<rparr>)"
  using inv hit unfolding channel_inv_def by auto

lemma inv_lock:
  assumes inv: "channel_inv c" and pc: "pcs c t = Lock ft" and free: "mutex c = None"
  shows "channel_inv (c\<lparr>mutex := Some t, pcs := (pcs c)(t := DoubleCheck ft)\<rparr>)"
    (is "channel_inv ?c")
proof (rule channel_invI)
  note d = channel_invD [OF inv]
  have nc: "\<And>t'. \<not> critical (pcs c t')" using d(1) free by simp
  { fix t' show "critical (pcs ?c t') \<longleftrightarrow> mutex ?c = Some t'"
      using nc [of t'] by (cases "t' = t") auto }
  { fix t' ft' fc' assume a: "pcs ?c t' = Insert ft' fc'"
    then have "t' \<noteq> t" by auto
    with a have "pcs c t' = Insert ft' fc'" by simp
    with nc [of t'] have False by simp
    then show "families ?c ft' = None \<and> fc' \<in> set (created ?c) \<and> fc_familyTime fc' = ft'" .. }
  { fix t' ft' fc' assume a: "pcs ?c t' = Return ft' fc'"
    then have "t' \<noteq> t" by auto
    with a have "pcs c t' = Return ft' fc'" by simp
    with nc [of t'] have False by simp
    then show "families ?c ft' = Some fc'" .. }
  { fix ft' fc' assume "(ft', fc') \<in> set (returned ?c)"
    then show "families ?c ft' = Some fc'" using d(4) by simp }
  show "distinct (map fc_familyTime (created ?c))" using d(5) by simp
  { fix fc' assume "fc' \<in> set (created ?c)"
    then have "fc' \<in> set (created c)" by simp
    from d(6) [OF this] nc have "families c (fc_familyTime fc') = Some fc'"
      by (metis critical.simps(2))
    then show "families ?c (fc_familyTime fc') = Some fc'
        \<or> (\<exists>t'. pcs ?c t' = Insert (fc_familyTime fc') fc')" by simp }
  { fix ft' fc' assume "families ?c ft' = Some fc'"
    then show "fc' \<in> set (created ?c) \<and> fc_familyTime fc' = ft'" using d(7) by simp }
qed

lemma inv_dc_hit:
  assumes inv: "channel_inv c" and pc: "pcs c t = DoubleCheck ft" and hit: "families c ft = Some fc"
  shows "channel_inv (c\<lparr>pcs := (pcs c)(t := Return ft fc)\<rparr>)" (is "channel_inv ?c")
proof (rule channel_invI)
  note d = channel_invD [OF inv]
  have crit: "critical (pcs c t)" using pc by simp
  note me = mutex_excludes [OF inv crit]
  { fix t' show "critical (pcs ?c t') \<longleftrightarrow> mutex ?c = Some t'"
      using d(1) [of t'] pc by (cases "t' = t") auto }
  { fix t' ft' fc' assume a: "pcs ?c t' = Insert ft' fc'"
    then have ne: "t' \<noteq> t" by auto
    with a have "pcs c t' = Insert ft' fc'" by simp
    with me [OF ne] have False by simp
    then show "families ?c ft' = None \<and> fc' \<in> set (created ?c) \<and> fc_familyTime fc' = ft'" .. }
  { fix t' ft' fc' assume a: "pcs ?c t' = Return ft' fc'"
    show "families ?c ft' = Some fc'"
    proof (cases "t' = t")
      case True with a hit show ?thesis by simp
    next
      case False
      with a have "pcs c t' = Return ft' fc'" by simp
      with me [OF False] show ?thesis by simp
    qed }
  { fix ft' fc' assume "(ft', fc') \<in> set (returned ?c)"
    then show "families ?c ft' = Some fc'" using d(4) by simp }
  show "distinct (map fc_familyTime (created ?c))" using d(5) by simp
  { fix fc' assume "fc' \<in> set (created ?c)"
    then have "fc' \<in> set (created c)" by simp
    from d(6) [OF this] have "families c (fc_familyTime fc') = Some fc'"
    proof
      assume "\<exists>t'. pcs c t' = Insert (fc_familyTime fc') fc'"
      then obtain t' where t': "pcs c t' = Insert (fc_familyTime fc') fc'" by blast
      with pc have "t' \<noteq> t" by auto
      from me [OF this] t' show ?thesis by simp
    qed
    then show "families ?c (fc_familyTime fc') = Some fc'
        \<or> (\<exists>t'. pcs ?c t' = Insert (fc_familyTime fc') fc')" by simp }
  { fix ft' fc' assume "families ?c ft' = Some fc'"
    then show "fc' \<in> set (created ?c) \<and> fc_familyTime fc' = ft'" using d(7) by simp }
qed

lemma inv_dc_miss:
  assumes inv: "channel_inv c" and pc: "pcs c t = DoubleCheck ft" and miss: "families c ft = None"
  shows "channel_inv (c\<lparr>next_id := next_id c + 1,
            created := created c @ [\<lparr>fc_id = next_id c, fc_familyTime = ft\<rparr>],
            pcs := (pcs c)(t := Insert ft \<lparr>fc_id = next_id c, fc_familyTime = ft\<rparr>)\<rparr>)"
    (is "channel_inv ?c")
proof (rule channel_invI)
  note d = channel_invD [OF inv]
  let ?fc = "\<lparr>fc_id = next_id c, fc_familyTime = ft\<rparr>"
  have crit: "critical (pcs c t)" using pc by simp
  note me = mutex_excludes [OF inv crit]
  have old: "\<And>fc'. fc' \<in> set (created c) \<Longrightarrow> families c (fc_familyTime fc') = Some fc'"
  proof -
    fix fc' assume "fc' \<in> set (created c)"
    from d(6) [OF this] show "families c (fc_familyTime fc') = Some fc'"
    proof
      assume "\<exists>t'. pcs c t' = Insert (fc_familyTime fc') fc'"
      then obtain t' where t': "pcs c t' = Insert (fc_familyTime fc') fc'" by blast
      with pc have "t' \<noteq> t" by auto
      from me [OF this] t' show ?thesis by simp
    qed
  qed
  { fix t' show "critical (pcs ?c t') \<longleftrightarrow> mutex ?c = Some t'"
      using d(1) [of t'] pc by (cases "t' = t") auto }
  { fix t' ft' fc' assume a: "pcs ?c t' = Insert ft' fc'"
    show "families ?c ft' = None \<and> fc' \<in> set (created ?c) \<and> fc_familyTime fc' = ft'"
    proof (cases "t' = t")
      case True with a miss show ?thesis by auto
    next
      case False
      with a have "pcs c t' = Insert ft' fc'" by simp
      with me [OF False] show ?thesis by simp
    qed }
  { fix t' ft' fc' assume a: "pcs ?c t' = Return ft' fc'"
    then have ne: "t' \<noteq> t" by auto
    with a have "pcs c t' = Return ft' fc'" by simp
    with me [OF ne] have False by simp
    then show "families ?c ft' = Some fc'" .. }
  { fix ft' fc' assume "(ft', fc') \<in> set (returned ?c)"
    then show "families ?c ft' = Some fc'" using d(4) by simp }
  show "distinct (map fc_familyTime (created ?c))"
  proof -
    have "ft \<notin> fc_familyTime ` set (created c)"
    proof
      assume "ft \<in> fc_familyTime ` set (created c)"
      then obtain fc' where "fc' \<in> set (created c)" "fc_familyTime fc' = ft" by auto
      with old [of fc'] miss show False by simp
    qed
    with d(5) show ?thesis by simp
  qed
  { fix fc' assume "fc' \<in> set (created ?c)"
    then have "fc' \<in> set (created c) \<or> fc' = ?fc" by auto
    then show "families ?c (fc_familyTime fc') = Some fc'
        \<or> (\<exists>t'. pcs ?c t' = Insert (fc_familyTime fc') fc')"
    proof
      assume "fc' \<in> set (created c)"
      from old [OF this] show ?thesis by simp
    next
      assume "fc' = ?fc"
      then have "pcs ?c t = Insert (fc_familyTime fc') fc'" by simp
      then show ?thesis by blast
    qed }
  { fix ft' fc' assume "families ?c ft' = Some fc'"
    then show "fc' \<in> set (created ?c) \<and> fc_familyTime fc' = ft'" using d(7) by simp }
qed

lemma inv_insert:
  assumes inv: "channel_inv c" and pc: "pcs c t = Insert ft fc"
  shows "channel_inv (c\<lparr>families := (families c)(ft \<mapsto> fc), pcs := (pcs c)(t := Return ft fc)\<rparr>)"
    (is "channel_inv ?c")
proof (rule channel_invI)
  note d = channel_invD [OF inv]
  have crit: "critical (pcs c t)" using pc by simp
  note me = mutex_excludes [OF inv crit]
  from d(2) [OF pc] have miss: "families c ft = None" and cr: "fc \<in> set (created c)"
    and ftm: "fc_familyTime fc = ft" by simp_all
  { fix t' show "critical (pcs ?c t') \<longleftrightarrow> mutex ?c = Some t'"
      using d(1) [of t'] pc by (cases "t' = t") auto }
  { fix t' ft' fc' assume a: "pcs ?c t' = Insert ft' fc'"
    then have ne: "t' \<noteq> t" by auto
    with a have "pcs c t' = Insert ft' fc'" by simp
    with me [OF ne] have False by simp
    then show "families ?c ft' = None \<and> fc' \<in> set (created ?c) \<and> fc_familyTime fc' = ft'" .. }
  { fix t' ft' fc' assume a: "pcs ?c t' = Return ft' fc'"
    show "families ?c ft' = Some fc'"
    proof (cases "t' = t")
      case True with a show ?thesis by simp
    next
      case False
      with a have "pcs c t' = Return ft' fc'" by simp
      with me [OF False] show ?thesis by simp
    qed }
  { fix ft' fc' assume "(ft', fc') \<in> set (returned ?c)"
    then have "families c ft' = Some fc'" using d(4) by simp
    with miss show "families ?c ft' = Some fc'" by (cases "ft' = ft") auto }
  show "distinct (map fc_familyTime (created ?c))" using d(5) by simp
  { fix fc' assume "fc' \<in> set (created ?c)"
    then have in_c: "fc' \<in> set (created c)" by simp
    from d(6) [OF in_c] have "families ?c (fc_familyTime fc') = Some fc'"
    proof
      assume f: "families c (fc_familyTime fc') = Some fc'"
      with miss have "fc_familyTime fc' \<noteq> ft" by auto
      with f show ?thesis by simp
    next
      assume "\<exists>t'. pcs c t' = Insert (fc_familyTime fc') fc'"
      then obtain t' where t': "pcs c t' = Insert (fc_familyTime fc') fc'" by blast
      have "t' = t"
      proof (rule ccontr)
        assume "t' \<noteq> t"
        from me [OF this] t' show False by simp
      qed
      with t' pc show ?thesis by simp
    qed
    then show "families ?c (fc_familyTime fc') = Some fc'
        \<or> (\<exists>t'. pcs ?c t' = Insert (fc_familyTime fc') fc')" .. }
  { fix ft' fc' assume a: "families ?c ft' = Some fc'"
    show "fc' \<in> set (created ?c) \<and> fc_familyTime fc' = ft'"
    proof (cases "ft' = ft")
      case True with a cr ftm show ?thesis by simp
    next
      case False with a d(7) show ?thesis by simp
    qed }
qed

lemma inv_return:
  assumes inv: "channel_inv c" and pc: "pcs c t = Return ft fc"
  shows "channel_inv (c\<lparr>mutex := None, pcs := (pcs c)(t := Idle),
            returned := returned c @ [(ft, fc)]\<rparr>)"
    (is "channel_inv ?c")
proof (rule channel_invI)
  note d = channel_invD [OF inv]
  have crit: "critical (pcs c t)" using pc by simp
  note me = mutex_excludes [OF inv crit]
  { fix t' show "critical (pcs ?c t') \<longleftrightarrow> mutex ?c = Some t'"
      using me [of t'] by (cases "t' = t") auto }
  { fix t' ft' fc' assume a: "pcs ?c t' = Insert ft' fc'"
    then have ne: "t' \<noteq> t" by auto
    with a have "pcs c t' = Insert ft' fc'" by simp
    with me [OF ne] have False by simp
    then show "families ?c ft' = None \<and> fc' \<in> set (created ?c) \<and> fc_familyTime fc' = ft'" .. }
  { fix t' ft' fc' assume a: "pcs ?c t' = Return ft' fc'"
    then have ne: "t' \<noteq> t" by auto
    with a have "pcs c t' = Return ft' fc'" by simp
    with me [OF ne] have False by simp
    then show "families ?c ft' = Some fc'" .. }
  { fix ft' fc' assume "(ft', fc') \<in> set (returned ?c)"
    then show "families ?c ft' = Some fc'" using d(4) d(3) [OF pc] by auto }
  show "distinct (map fc_familyTime (created ?c))" using d(5) by simp
  { fix fc' assume "fc' \<in> set (created ?c)"
    then have "fc' \<in> set (created c)" by simp
    from d(6) [OF this] have "families c (fc_familyTime fc') = Some fc'"
    proof
      assume "\<exists>t'. pcs c t' = Insert (fc_familyTime fc') fc'"
      then obtain t' where t': "pcs c t' = Insert (fc_familyTime fc') fc'" by blast
      with pc have "t' \<noteq> t" by auto
      from me [OF this] t' show ?thesis by simp
    qed
    then show "families ?c (fc_familyTime fc') = Some fc'
        \<or> (\<exists>t'. pcs ?c t' = Insert (fc_familyTime fc') fc')" by simp }
  { fix ft' fc' assume "families ?c ft' = Some fc'"
    then show "fc' \<in> set (created ?c) \<and> fc_familyTime fc' = ft'" using d(7) by simp }
qed

lemma inv_step:
  assumes inv: "channel_inv c"
  shows "channel_inv (step t c)"
proof (cases "pcs c t")
  case Idle
  with inv show ?thesis by (simp add: step_def)
next
  case (FastPath ft)
  show ?thesis
  proof (cases "families c ft")
    case None
    with FastPath inv_move_outside [OF inv, of t "Lock ft"] show ?thesis
      by (simp add: step_def GetFamilyChannel_def)
  next
    case (Some fc)
    have "channel_inv (c\<lparr>pcs := (pcs c)(t := Idle)\<rparr>)"
      using FastPath inv_move_outside [OF inv, of t Idle] by simp
    from inv_returned [OF this, of ft fc] Some FastPath show ?thesis
      by (simp add: step_def GetFamilyChannel_def)
  qed
next
  case (Lock ft)
  show ?thesis
  proof (cases "mutex c")
    case None
    with Lock inv_lock [OF inv Lock] show ?thesis by (simp add: step_def)
  next
    case (Some holder)
    with Lock inv show ?thesis by (simp add: step_def)
  qed
next
  case (DoubleCheck ft)
  show ?thesis
  proof (cases "families c ft")
    case None
    with DoubleCheck inv_dc_miss [OF inv DoubleCheck None] show ?thesis
      by (simp add: step_def GetFamilyChannel_def newFamilyChannel_def Let_def)
  next
    case (Some fc)
    with DoubleCheck inv_dc_hit [OF inv DoubleCheck Some] show ?thesis
      by (simp add: step_def GetFamilyChannel_def)
  qed
next
  case (Insert ft fc)
  with inv_insert [OF inv Insert] show ?thesis
    by (simp add: step_def InsertFamily_def Let_def)
next
  case (Return ft fc)
  with inv_return [OF inv Return] show ?thesis by (simp add: step_def)
qed

lemma inv_fire:
  assumes inv: "channel_inv c"
  shows "channel_inv (fire e c)"
proof (cases e)
  case (Call t ft)
  show ?thesis
  proof (cases "pcs c t = Idle")
    case True
    with Call inv_move_outside [OF inv, of t "FastPath ft"] show ?thesis by (simp add: fire_def)
  next
    case False
    with Call inv show ?thesis by (simp add: fire_def)
  qed
next
  case (Step t)
  with inv_step [OF inv] show ?thesis by (simp add: fire_def)
qed

lemma inv_run: "channel_inv c \<Longrightarrow> channel_inv (run es c)"
  by (induction es arbitrary: c) (simp_all add: inv_fire)

lemma sequential_call_returns:
  assumes idle: "pcs c t = Idle" and free: "mutex c = None"
  shows "\<exists>fc. returned (GetOrCreateFamilyChannel t ft c) = returned c @ [(ft, fc)]
           \<and> families (GetOrCreateFamilyChannel t ft c) ft = Some fc
           \<and> pcs (GetOrCreateFamilyChannel t ft c) t = Idle
           \<and> mutex (GetOrCreateFamilyChannel t ft c) = None"
proof (cases "families c ft")
  case None
  with idle free show ?thesis
    by (simp add: GetOrCreateFamilyChannel_def fire_def step_def GetFamilyChannel_def
          newFamilyChannel_def InsertFamily_def Let_def)
next
  case (Some fc)
  with idle free show ?thesis
    by (simp add: GetOrCreateFamilyChannel_def fire_def step_def GetFamilyChannel_def)
qed

text \<open>
  Claim C9. Along every interleaving of calls of \<open>GetOrCreateFamilyChannel\<close> by any
  number of goroutines on a new shard channel, every call that has returned for a family
  time returned the channel the map holds for it, so all calls for one family time return
  the same channel; the map's entry for a family time is a channel created for that family
  time, and \<open>newFamilyChannel\<close> has run at most once per family time.
\<close>

theorem GetOrCreateFamilyChannel_idempotent:
  "(\<forall>ft fc fc'. (ft, fc) \<in> set (returned (run es newChannel))
        \<and> (ft, fc') \<in> set (returned (run es newChannel)) \<longrightarrow> fc = fc')
   \<and> (\<forall>ft fc. (ft, fc) \<in> set (returned (run es newChannel))
        \<longrightarrow> families (run es newChannel) ft = Some fc)
   \<and> (\<forall>ft fc. families (run es newChannel) ft = Some fc
        \<longrightarrow> fc \<in> set (created (run es newChannel)) \<and> fc_familyTime fc = ft)
   \<and> distinct (map fc_familyTime (created (run es newChannel)))"
proof -
  have inv: "channel_inv (run es newChannel)"
    by (rule inv_run [OF inv_newChannel])
  note d = channel_invD [OF inv]
  have same: "\<forall>ft fc fc'. (ft, fc) \<in> set (returned (run es newChannel))
        \<and> (ft, fc') \<in> set (returned (run es newChannel)) \<longrightarrow> fc = fc'"
  proof (intro allI impI, elim conjE)
    fix ft fc fc'
    assume "(ft, fc) \<in> set (returned (run es newChannel))"
      and "(ft, fc') \<in> set (returned (run es newChannel))"
    then have "families (run es newChannel) ft = Some fc" "families (run es newChannel) ft = Some fc'"
      using d(4) by blast+
    then show "fc = fc'" by simp
  qed
  from same d(4) d(7) d(5) show ?thesis by blast
qed

lemma ex_schedule_run:
  "returned (run ex_schedule newChannel)
     = [(5, \<lparr>fc_id = 0, fc_familyTime = 5\<rparr>), (5, \<lparr>fc_id = 0, fc_familyTime = 5\<rparr>),
        (5, \<lparr>fc_id = 0, fc_familyTime = 5\<rparr>)]"
  "created (run ex_schedule newChannel) = [\<lparr>fc_id = 0, fc_familyTime = 5\<rparr>]"
  by (simp_all add: ex_schedule_def newChannel_def fire_def step_def GetFamilyChannel_def
        newFamilyChannel_def InsertFamily_def Let_def)

theorem GetOrCreateFamilyChannel_idempotent_witness:
  "(5, \<lparr>fc_id = 0, fc_familyTime = 5\<rparr>) \<in> set (returned (run ex_schedule newChannel))
   \<and> length (returned (run ex_schedule newChannel)) = 3
   \<and> families (run ex_schedule newChannel) 5 = Some \<lparr>fc_id = 0, fc_familyTime = 5\<rparr>
   \<and> created (run ex_schedule newChannel) = [\<lparr>fc_id = 0, fc_familyTime = 5\<rparr>]"
proof -
  have r: "(5, \<lparr>fc_id = 0, fc_familyTime = 5\<rparr>) \<in> set (returned (run ex_schedule newChannel))"
    by (simp add: ex_schedule_run)
  from r GetOrCreateFamilyChannel_idempotent [of ex_schedule]
  have "families (run ex_schedule newChannel) 5 = Some \<lparr>fc_id = 0, fc_familyTime = 5\<rparr>"
    by blast
  with r show ?thesis by (simp add: ex_schedule_run)
qed

end
